theory Spec2Isabelle
  imports Main "HOL-Library.Sublist" "HOL-Library.AList" "HOL-Library.Char_ord"
    "HOL-Library.List_Lexorder"
begin

section \<open>Python strings\<close>

text \<open>
  A Python \<open>str\<close> is modelled as a \<open>string\<close>: a list of 8-bit characters, read as the
  code points U+0000 to U+00FF. \<open>len\<close> is \<open>length\<close>, slicing \<open>s[:n]\<close> is \<open>take n s\<close>,
  concatenation is \<open>@\<close>. The character classes below are those of CPython restricted to
  this range.
\<close>

definition whitespace_chars :: "char list" where
  \<comment> \<open>\<open>str.isspace\<close>, which is also what \<open>str.strip()\<close> removes and what \<open>\s\<close> matches in a
      \<open>str\<close> pattern: TAB, LF, VT, FF, CR, FS, GS, RS, US, SPACE, NEL, NBSP.\<close>
  "whitespace_chars = [CHR 0x09, CHR 0x0A, CHR 0x0B, CHR 0x0C, CHR 0x0D, CHR 0x1C, CHR 0x1D,
     CHR 0x1E, CHR 0x1F, CHR 0x20, CHR 0x85, CHR 0xA0]"

definition isspace :: "char \<Rightarrow> bool" where
  "isspace c = (c \<in> set whitespace_chars)"

definition lstrip :: "string \<Rightarrow> string" where
  "lstrip s = dropWhile isspace s"

definition rstrip :: "string \<Rightarrow> string" where
  "rstrip s = rev (dropWhile isspace (rev s))"

definition strip :: "string \<Rightarrow> string" where
  "strip s = lstrip (rstrip s)"

definition ascii_upper :: "char list" where
  "ascii_upper = ''ABCDEFGHIJKLMNOPQRSTUVWXYZ''"

definition ascii_lower :: "char list" where
  "ascii_lower = ''abcdefghijklmnopqrstuvwxyz''"

definition latin1_upper :: "char list" where
  \<comment> \<open>U+00C0 .. U+00DE without the multiplication sign U+00D7.\<close>
  "latin1_upper = [CHR 0xC0, CHR 0xC1, CHR 0xC2, CHR 0xC3, CHR 0xC4, CHR 0xC5, CHR 0xC6,
     CHR 0xC7, CHR 0xC8, CHR 0xC9, CHR 0xCA, CHR 0xCB, CHR 0xCC, CHR 0xCD, CHR 0xCE, CHR 0xCF,
     CHR 0xD0, CHR 0xD1, CHR 0xD2, CHR 0xD3, CHR 0xD4, CHR 0xD5, CHR 0xD6,
     CHR 0xD8, CHR 0xD9, CHR 0xDA, CHR 0xDB, CHR 0xDC, CHR 0xDD, CHR 0xDE]"

definition latin1_lower :: "char list" where
  \<comment> \<open>U+00E0 .. U+00FE without the division sign U+00F7.\<close>
  "latin1_lower = [CHR 0xE0, CHR 0xE1, CHR 0xE2, CHR 0xE3, CHR 0xE4, CHR 0xE5, CHR 0xE6,
     CHR 0xE7, CHR 0xE8, CHR 0xE9, CHR 0xEA, CHR 0xEB, CHR 0xEC, CHR 0xED, CHR 0xEE, CHR 0xEF,
     CHR 0xF0, CHR 0xF1, CHR 0xF2, CHR 0xF3, CHR 0xF4, CHR 0xF5, CHR 0xF6,
     CHR 0xF8, CHR 0xF9, CHR 0xFA, CHR 0xFB, CHR 0xFC, CHR 0xFD, CHR 0xFE]"

definition lower_char :: "char \<Rightarrow> char" where
  "lower_char c =
     (case map_of (zip (ascii_upper @ latin1_upper) (ascii_lower @ latin1_lower)) c of
        Some l \<Rightarrow> l
      | None \<Rightarrow> c)"

definition lower :: "string \<Rightarrow> string" where
  \<comment> \<open>\<open>str.lower()\<close>\<close>
  "lower s = map lower_char s"

definition upper_char :: "char \<Rightarrow> string" where
  \<comment> \<open>\<open>str.upper()\<close> of one character. The sharp s becomes two letters. The uppercase forms
      of U+00FF and of the micro sign U+00B5 lie beyond U+00FF and cannot be held by an
      8-bit character: the two are left as they are, so \<open>upper\<close> is exact on every string
      without them (the site slugs of the registry are ASCII).\<close>
  "upper_char c =
     (if c = CHR 0xDF then ''SS''
      else case map_of (zip (ascii_lower @ latin1_lower) (ascii_upper @ latin1_upper)) c of
        Some u \<Rightarrow> [u]
      | None \<Rightarrow> [c])"

definition upper :: "string \<Rightarrow> string" where
  "upper s = concat (map upper_char s)"

fun contains :: "string \<Rightarrow> string \<Rightarrow> bool" where
  \<comment> \<open>\<open>sub in s\<close>\<close>
  "contains sub [] = (sub = [])"
| "contains sub (c # s) = (prefix sub (c # s) \<or> contains sub s)"

definition startswith :: "string \<Rightarrow> string \<Rightarrow> bool" where
  \<comment> \<open>\<open>s.startswith(p)\<close>\<close>
  "startswith s p = prefix p s"

fun replace :: "string \<Rightarrow> string \<Rightarrow> string \<Rightarrow> string" where
  \<comment> \<open>\<open>s.replace(old, new)\<close> for a non-empty \<open>old\<close>: every occurrence, left to right, without
      overlap.\<close>
  "replace old new [] = []"
| "replace old new (c # s) =
     (if old \<noteq> [] \<and> prefix old (c # s) then new @ replace old new (drop (length old - 1) s)
      else c # replace old new s)"

fun join :: "string \<Rightarrow> string list \<Rightarrow> string" where
  \<comment> \<open>\<open>sep.join(xs)\<close>\<close>
  "join sep [] = []"
| "join sep [x] = x"
| "join sep (x # y # xs) = x @ sep @ join sep (y # xs)"

definition digit_chars :: "char list" where
  "digit_chars = ''0123456789''"

definition isdigit :: "char \<Rightarrow> bool" where
  \<comment> \<open>\<open>\d\<close> in a \<open>str\<close> pattern (decimal digits; below U+0100 these are the ASCII digits).\<close>
  "isdigit c = (c \<in> set digit_chars)"

definition digit_val :: "char \<Rightarrow> nat" where
  "digit_val c = length (takeWhile (\<lambda>d. d \<noteq> c) digit_chars)"

definition digit_of :: "nat \<Rightarrow> char" where
  "digit_of n = digit_chars ! (n mod 10)"

fun show_nat :: "nat \<Rightarrow> string" where
  \<comment> \<open>\<open>str(n)\<close> and \<open>f"{n}"\<close> for a non-negative integer: decimal, no padding.\<close>
  "show_nat n = (if n < 10 then [digit_of n] else show_nat (n div 10) @ [digit_of n])"

declare show_nat.simps [simp del]

definition digits_val :: "string \<Rightarrow> nat" where
  \<comment> \<open>the value of a string of decimal digits, as \<open>int\<close> reads it\<close>
  "digits_val s = foldl (\<lambda>acc c. 10 * acc + digit_val c) 0 s"

section \<open>The filename sanitizer (scrapers/base.py, title_to_filename)\<close>

definition illegal_chars :: "char list" where
  \<comment> \<open>the character class of the first \<open>re.sub\<close>: backslash, slash, star, question mark,
      colon, double quote, less, greater, bar\<close>
  "illegal_chars = [CHR 0x5C, CHR ''/'', CHR ''*'', CHR ''?'', CHR '':'', CHR 0x22, CHR ''<'',
     CHR ''>'', CHR ''|'']"

definition strip_illegal :: "string \<Rightarrow> string" where
  "strip_illegal s = filter (\<lambda>c. c \<notin> set illegal_chars) s"

fun collapse_ws :: "bool \<Rightarrow> string \<Rightarrow> string" where
  \<comment> \<open>\<open>re.sub(r"\s+", " ", s)\<close>: each maximal run of whitespace becomes one space. The flag
      says that the previous character belonged to a run already replaced.\<close>
  "collapse_ws in_run [] = []"
| "collapse_ws in_run (c # cs) =
     (if isspace c then (if in_run then collapse_ws True cs else CHR '' '' # collapse_ws True cs)
      else c # collapse_ws False cs)"

definition title_to_filename :: "string \<Rightarrow> string" where
  "title_to_filename title =
     (if title = [] then ''untitled.txt''
      else
        let cleaned = strip_illegal title;
            cleaned = strip (collapse_ws False cleaned);
            cleaned = (if cleaned = [] then ''untitled'' else cleaned);
            cleaned = (if length cleaned > 150 then rstrip (take 150 cleaned) else cleaned)
        in cleaned @ ''.txt'')"

fun single_spaced :: "string \<Rightarrow> bool" where
  \<comment> \<open>every whitespace character is a space, and no two stand side by side\<close>
  "single_spaced [] = True"
| "single_spaced [c] = (if isspace c then c = CHR '' '' else True)"
| "single_spaced (c # d # s) =
     ((if isspace c then c = CHR '' '' \<and> \<not> isspace d else True) \<and> single_spaced (d # s))"

definition trimmed :: "string \<Rightarrow> bool" where
  \<comment> \<open>no leading and no trailing whitespace\<close>
  "trimmed s = (if s = [] then True else \<not> isspace (hd s) \<and> \<not> isspace (last s))"

definition safe_stem :: "string \<Rightarrow> bool" where
  \<comment> \<open>what the sanitizer promises of a stem\<close>
  "safe_stem s =
     (s \<noteq> [] \<and> length s \<le> 150 \<and> set s \<inter> set illegal_chars = {} \<and> single_spaced s \<and>
      trimmed s)"


section \<open>Exceptions and calendar dates\<close>

datatype exn =
  RequestException | JSONDecodeError | ValueError | AttributeError | TypeError | OverflowError |
  OSError

text \<open>
  The Python exception classes the modelled code can meet; all derive from \<open>Exception\<close>.
  A function that can raise returns \<open>exn + 'a\<close>, with \<open>Inl\<close> for the raise.
\<close>

datatype date = Date (year: nat) (month: nat) (day: nat)

definition is_leap :: "nat \<Rightarrow> bool" where
  "is_leap y = (y mod 4 = 0 \<and> (y mod 100 \<noteq> 0 \<or> y mod 400 = 0))"

definition days_in_month :: "nat \<Rightarrow> nat \<Rightarrow> nat" where
  "days_in_month y m =
     (if m = 2 then (if is_leap y then 29 else 28)
      else if m = 4 \<or> m = 6 \<or> m = 9 \<or> m = 11 then 30 else 31)"

definition valid_date :: "date \<Rightarrow> bool" where
  \<comment> \<open>the values a \<open>datetime.date\<close> object can hold\<close>
  "valid_date d =
     (1 \<le> year d \<and> year d \<le> 9999 \<and> 1 \<le> month d \<and> month d \<le> 12 \<and> 1 \<le> day d \<and>
      day d \<le> days_in_month (year d) (month d))"

definition fits_c_int :: "int \<Rightarrow> bool" where
  "fits_c_int v = (- 2147483648 \<le> v \<and> v \<le> 2147483647)"

definition date_new :: "int \<Rightarrow> int \<Rightarrow> int \<Rightarrow> exn + date" where
  \<comment> \<open>\<open>datetime.date(y, m, d)\<close>: the arguments are converted to C ints first (OverflowError
      when one does not fit), then range-checked (ValueError).\<close>
  "date_new y m d =
     (if \<not> (fits_c_int y \<and> fits_c_int m \<and> fits_c_int d) then Inl OverflowError
      else if 1 \<le> y \<and> y \<le> 9999 \<and> 1 \<le> m \<and> m \<le> 12 \<and> 1 \<le> d \<and>
              d \<le> int (days_in_month (nat y) (nat m))
      then Inr (Date (nat y) (nat m) (nat d))
      else Inl ValueError)"

definition pad2 :: "nat \<Rightarrow> string" where
  \<comment> \<open>\<open>"%02d"\<close> for a number below 100\<close>
  "pad2 n = [digit_of (n div 10), digit_of n]"

definition pad4 :: "nat \<Rightarrow> string" where
  \<comment> \<open>\<open>"%04d"\<close> for a number below 10000\<close>
  "pad4 n = [digit_of (n div 1000), digit_of (n div 100), digit_of (n div 10), digit_of n]"

definition isoformat :: "date \<Rightarrow> string" where
  \<comment> \<open>\<open>date.isoformat()\<close>\<close>
  "isoformat d = pad4 (year d) @ ''-'' @ pad2 (month d) @ ''-'' @ pad2 (day d)"

section \<open>The date parser (scrapers/base.py, parse_us_date_string)\<close>

text \<open>
  \<open>datetime.strptime\<close> (CPython's \<open>_strptime\<close>, C locale) turns the format into a regular
  expression, matched at the start of the text without regard to case: \<open>%b\<close> and \<open>%B\<close>
  become the alternation of the lower-cased month names, longest first; a blank in the
  format becomes \<open>\s+\<close>; \<open>%d\<close> becomes \<open>3[0-1]|[1-2]\d|0[1-9]|[1-9]| [1-9]\<close>; \<open>%Y\<close>
  becomes \<open>\d\d\d\d\<close>. The first match in the regular expression's order of preference
  counts; text left over after it, no match, and a day the month does not have are all
  ValueError. The continuations below follow that order, backtracking included.
\<close>

fun first_some :: "('a \<Rightarrow> 'b option) \<Rightarrow> 'a list \<Rightarrow> 'b option" where
  \<comment> \<open>the first alternative that leads to a match\<close>
  "first_some k [] = None"
| "first_some k (x # xs) = (case k x of Some r \<Rightarrow> Some r | None \<Rightarrow> first_some k xs)"

fun ws_star_then :: "(string \<Rightarrow> 'a option) \<Rightarrow> string \<Rightarrow> 'a option" where
  \<comment> \<open>\<open>\s*\<close> followed by the rest of the pattern \<open>k\<close>: greedy, giving characters back\<close>
  "ws_star_then k [] = k []"
| "ws_star_then k (c # s) =
     (if isspace c then (case ws_star_then k s of Some r \<Rightarrow> Some r | None \<Rightarrow> k (c # s))
      else k (c # s))"

definition ws_plus_then :: "(string \<Rightarrow> 'a option) \<Rightarrow> string \<Rightarrow> 'a option" where
  \<comment> \<open>\<open>\s+\<close> followed by the rest of the pattern\<close>
  "ws_plus_then k s =
     (case s of [] \<Rightarrow> None | c # s' \<Rightarrow> if isspace c then ws_star_then k s' else None)"

definition month_abbr :: "string list" where
  "month_abbr = [''jan'', ''feb'', ''mar'', ''apr'', ''may'', ''jun'', ''jul'', ''aug'', ''sep'',
     ''oct'', ''nov'', ''dec'']"

definition month_full :: "string list" where
  "month_full = [''january'', ''february'', ''march'', ''april'', ''may'', ''june'', ''july'',
     ''august'', ''september'', ''october'', ''november'', ''december'']"

definition regex_order :: "string list \<Rightarrow> string list" where
  \<comment> \<open>\<open>sorted(names, key=len, reverse=True)\<close>: longest first, stable\<close>
  "regex_order names = sort_key (\<lambda>n. - int (length n)) names"

definition nonzero_digit :: "char \<Rightarrow> bool" where
  "nonzero_digit c = (c \<in> set ''123456789'')"

definition day_alternatives :: "string \<Rightarrow> (nat \<times> string) list" where
  \<comment> \<open>the alternatives of \<open>%d\<close> that match at the start of \<open>s\<close>, in the pattern's order, each
      with the day it reads and the text after it\<close>
  "day_alternatives s =
     (case s of
        c1 # c2 # r \<Rightarrow>
          (if c1 = CHR ''3'' \<and> (c2 = CHR ''0'' \<or> c2 = CHR ''1'')
           then [(digits_val [c1, c2], r)] else []) @
          (if (c1 = CHR ''1'' \<or> c1 = CHR ''2'') \<and> isdigit c2
           then [(digits_val [c1, c2], r)] else []) @
          (if c1 = CHR ''0'' \<and> nonzero_digit c2 then [(digits_val [c1, c2], r)] else [])
      | _ \<Rightarrow> []) @
     (case s of c1 # r \<Rightarrow> if nonzero_digit c1 then [(digit_val c1, r)] else [] | [] \<Rightarrow> []) @
     (case s of
        c0 # c1 # r \<Rightarrow> if c0 = CHR '' '' \<and> nonzero_digit c1 then [(digit_val c1, r)] else []
      | _ \<Rightarrow> [])"

definition year_then :: "string \<Rightarrow> (nat \<times> string) option" where
  \<comment> \<open>\<open>%Y\<close>: exactly four digits; the text after them is returned\<close>
  "year_then s =
     (if 4 \<le> length s \<and> list_all isdigit (take 4 s) then Some (digits_val (take 4 s), drop 4 s)
      else None)"

definition date_tail :: "string \<Rightarrow> (nat \<times> nat \<times> string) option" where
  \<comment> \<open>\<open>\s+%d,\s+%Y\<close>: the day, the year and the text left over\<close>
  "date_tail s =
     ws_plus_then
       (\<lambda>s1. first_some
          (\<lambda>(d, s2). case s2 of
               [] \<Rightarrow> None
             | c # s3 \<Rightarrow>
                 if c = CHR '','' then
                   ws_plus_then
                     (\<lambda>s4. case year_then s4 of
                              Some (y, rest) \<Rightarrow> Some (d, y, rest)
                            | None \<Rightarrow> None) s3
                 else None)
          (day_alternatives s1)) s"

definition strptime_match :: "string list \<Rightarrow> string \<Rightarrow> (string \<times> nat \<times> nat \<times> string) option"
  where
  \<comment> \<open>the match of \<open>"%b %d, %Y"\<close> (names = \<open>month_abbr\<close>) or \<open>"%B %d, %Y"\<close> (names =
      \<open>month_full\<close>): the lower-cased month name found, the day, the year, the text left
      over\<close>
  "strptime_match names s =
     first_some
       (\<lambda>n. if lower (take (length n) s) = n then
               (case date_tail (drop (length n) s) of
                  Some (d, y, rest) \<Rightarrow> Some (n, d, y, rest)
                | None \<Rightarrow> None)
             else None)
       (regex_order names)"

definition index_of :: "'a list \<Rightarrow> 'a \<Rightarrow> nat" where
  \<comment> \<open>\<open>xs.index(x)\<close> for an \<open>x\<close> that occurs in \<open>xs\<close>\<close>
  "index_of xs x = length (takeWhile (\<lambda>y. y \<noteq> x) xs)"

definition strptime :: "string list \<Rightarrow> string \<Rightarrow> exn + date" where
  \<comment> \<open>\<open>datetime.strptime(s, fmt).date()\<close> for the two formats\<close>
  "strptime names s =
     (case strptime_match names s of
        None \<Rightarrow> Inl ValueError
      | Some (n, d, y, rest) \<Rightarrow>
          if rest \<noteq> [] then Inl ValueError
          else date_new (int y) (int (index_of names n + 1)) (int d))"

fun try_formats :: "string list list \<Rightarrow> string \<Rightarrow> exn + date option" where
  \<comment> \<open>the \<open>for fmt in (...)\<close> loop: ValueError moves on to the next format, any other
      exception would leave the function\<close>
  "try_formats [] fixed = Inr None"
| "try_formats (names # fmts) fixed =
     (case strptime names fixed of
        Inr d \<Rightarrow> Inr (Some d)
      | Inl e \<Rightarrow> if e = ValueError then try_formats fmts fixed else Inl e)"

definition sept_fixed :: "string \<Rightarrow> string" where
  "sept_fixed date_str = replace ''SEPT '' ''Sep '' (replace ''Sept '' ''Sep '' date_str)"

definition parse_us_date_string :: "string \<Rightarrow> exn + date option" where
  "parse_us_date_string date_str = try_formats [month_abbr, month_full] (sept_fixed date_str)"

definition month_names :: "nat \<Rightarrow> string list" where
  \<comment> \<open>the spellings of month \<open>m\<close> (1 to 12) a page can show: abbreviated, full, and Sept\<close>
  "month_names m =
     [[''Jan''], [''Feb''], [''Mar''], [''Apr''], [''May''], [''Jun''], [''Jul''], [''Aug''],
      [''Sep'', ''Sept''], [''Oct''], [''Nov''], [''Dec'']] ! (m - 1) @
     [[''January''], [''February''], [''March''], [''April''], [''May''], [''June''], [''July''],
      [''August''], [''September''], [''October''], [''November''], [''December'']] ! (m - 1)"

definition accepted_format :: "string \<Rightarrow> bool" where
  \<comment> \<open>the text, after the Sept fix, matches one of the two formats in full\<close>
  "accepted_format s =
     list_ex (\<lambda>names. case strptime_match names (sept_fixed s) of
                         Some (n, d, y, rest) \<Rightarrow> rest = []
                       | None \<Rightarrow> False) [month_abbr, month_full]"

section \<open>The date pattern (scrapers/base.py, DATE_PATTERN)\<close>

definition word_chars :: "char list" where
  \<comment> \<open>\<open>\w\<close> in a \<open>str\<close> pattern: alphanumeric characters and the underscore\<close>
  "word_chars = digit_chars @ ascii_upper @ ascii_lower @ ''_'' @ latin1_upper @ latin1_lower @
     [CHR 0xAA, CHR 0xB2, CHR 0xB3, CHR 0xB5, CHR 0xB9, CHR 0xBA, CHR 0xBC, CHR 0xBD, CHR 0xBE,
      CHR 0xDF, CHR 0xFF]"

definition isword :: "char \<Rightarrow> bool" where
  "isword c = (c \<in> set word_chars)"

definition date_pattern_months :: "string list" where
  \<comment> \<open>the month alternation with its optional groups written out, in the order the
      matcher tries them (an optional group is tried present first)\<close>
  "date_pattern_months = [''January'', ''Jan'', ''February'', ''Feb'', ''March'', ''Mar'',
     ''April'', ''Apr'', ''May'', ''June'', ''Jun'', ''July'', ''Jul'', ''August'', ''Aug'',
     ''September'', ''Sept'', ''Sep'', ''October'', ''Oct'', ''November'', ''Nov'',
     ''December'', ''Dec'']"

definition one_or_two_digits :: "string \<Rightarrow> string list" where
  \<comment> \<open>\<open>\d{1,2}\<close>: the texts left after two digits and after one\<close>
  "one_or_two_digits s =
     (case s of c1 # c2 # r \<Rightarrow> if isdigit c1 \<and> isdigit c2 then [r] else [] | _ \<Rightarrow> []) @
     (case s of c1 # r \<Rightarrow> if isdigit c1 then [r] else [] | [] \<Rightarrow> [])"

definition pattern_tail :: "string \<Rightarrow> string option" where
  \<comment> \<open>\<open>\s+\d{1,2},\s+\d{4}\b\<close>: the text left after the match\<close>
  "pattern_tail s =
     ws_plus_then
       (\<lambda>s1. first_some
          (\<lambda>s2. case s2 of
               [] \<Rightarrow> None
             | c # s3 \<Rightarrow>
                 if c = CHR '','' then
                   ws_plus_then
                     (\<lambda>s4. if 4 \<le> length s4 \<and> list_all isdigit (take 4 s4) \<and>
                               (case drop 4 s4 of [] \<Rightarrow> True | c' # _ \<Rightarrow> \<not> isword c')
                            then Some (drop 4 s4) else None) s3
                 else None)
          (one_or_two_digits s1)) s"

definition match_here :: "string \<Rightarrow> string option" where
  \<comment> \<open>the pattern after its leading \<open>\b\<close>, matched at the start of \<open>s\<close>: the matched text\<close>
  "match_here s =
     (case first_some
             (\<lambda>n. if prefix n s then pattern_tail (drop (length n) s) else None)
             date_pattern_months of
        Some rest \<Rightarrow> Some (take (length s - length rest) s)
      | None \<Rightarrow> None)"

fun search_from :: "char option \<Rightarrow> string \<Rightarrow> string option" where
  \<comment> \<open>\<open>DATE_PATTERN.search\<close>: the leftmost match; \<open>prev\<close> is the character before the
      position tried, for the leading \<open>\b\<close>\<close>
  "search_from prev [] = None"
| "search_from prev (c # s) =
     (case (if (case prev of None \<Rightarrow> True | Some p \<Rightarrow> \<not> isword p) then match_here (c # s)
            else None) of
        Some m \<Rightarrow> Some m
      | None \<Rightarrow> search_from (Some c) s)"

definition date_pattern_search :: "string \<Rightarrow> string option" where
  \<comment> \<open>\<open>match.group(0)\<close> of \<open>DATE_PATTERN.search(text)\<close>, when there is a match\<close>
  "date_pattern_search text = search_from None text"


section \<open>Articles and the archive (scrapers/base.py)\<close>

datatype json =
  JNull | JBool bool | JNum int | JStr string | JArr "json list" | JObj "(string \<times> json) list"

text \<open>
  The values \<open>resp.json()\<close> can return, which are also the Python values a dictionary of
  the program can hold (\<open>None\<close>, \<open>bool\<close>, \<open>int\<close>, \<open>str\<close>, \<open>list\<close>, \<open>dict\<close>; numbers are taken
  to be integers). A \<open>dict\<close> is an association list in insertion order.
\<close>

fun truthy :: "json \<Rightarrow> bool" where
  \<comment> \<open>the truth value Python gives a value in \<open>if v\<close>, \<open>not v\<close> and \<open>v or w\<close>\<close>
  "truthy JNull = False"
| "truthy (JBool b) = b"
| "truthy (JNum n) = (n \<noteq> 0)"
| "truthy (JStr s) = (s \<noteq> [])"
| "truthy (JArr xs) = (xs \<noteq> [])"
| "truthy (JObj kvs) = (kvs \<noteq> [])"

record article =
  a_url :: string
  a_title :: json
  a_date :: "date option"
  a_paragraphs :: "string list"

text \<open>
  The dictionary an adapter builds, with keys \<open>url\<close>, \<open>title\<close>, \<open>date\<close> and \<open>paragraphs\<close>. The HTML
  adapters store a \<open>str\<close> title, the JSON adapters whatever the row holds under \<open>title\<close>.
  \<open>a_date\<close> is \<open>None\<close> when the value under \<open>date\<close> is not a \<open>datetime.date\<close>.
\<close>

definition article_lines :: "string \<Rightarrow> article \<Rightarrow> string \<Rightarrow> string list" where
  \<comment> \<open>the list \<open>lines\<close> that \<open>write_text_article\<close> builds for the title \<open>t\<close>\<close>
  "article_lines t a site_slug =
     [t, '''', ''Site: '' @ upper site_slug] @
     (case a_date a of Some d \<Rightarrow> [''Published: '' @ isoformat d] | None \<Rightarrow> []) @
     [''URL: '' @ a_url a, ''''] @
     concat (map (\<lambda>p. let p' = strip p in if p' \<noteq> [] then [p', ''''] else [])
       (a_paragraphs a))"

definition write_text_article :: "article \<Rightarrow> string \<Rightarrow> exn + string" where
  \<comment> \<open>the text \<open>write_text_article\<close> hands to \<open>path.write_text\<close>; joining a title that is not
      a \<open>str\<close> is a TypeError\<close>
  "write_text_article a site_slug =
     (case (if truthy (a_title a) then a_title a else JStr ''Untitled'') of
        JStr t \<Rightarrow> Inr (rstrip (join ''\<newline>'' (article_lines t a site_slug)) @ ''\<newline>'')
      | _ \<Rightarrow> Inl TypeError)"

datatype content = Text string | UrlList "string list"

text \<open>
  What a file of the archive holds: the text of an article, or the URL manifest (the JSON
  array \<open>json.dumps\<close> writes, kept as the list of its strings). A path is the list of its
  components below \<open>ROOT_DIR\<close>; the archive is the finite list of the files that exist,
  each with its content.
\<close>

type_synonym path = "string list"
type_synonym archive = "(path \<times> content) list"

definition path_exists :: "archive \<Rightarrow> path \<Rightarrow> bool" where
  "path_exists fs p = (p \<in> fst ` set fs)"

definition write_file :: "archive \<Rightarrow> path \<Rightarrow> content \<Rightarrow> archive" where
  \<comment> \<open>the archive once a file is created at \<open>p\<close> or its content replaced\<close>
  "write_file fs p c = AList.update p c fs"

definition utf8_length :: "string \<Rightarrow> nat" where
  \<comment> \<open>the bytes of the UTF-8 form of a name: two for a character from U+0080 on\<close>
  "utf8_length s = length s + length (filter (\<lambda>c. 128 \<le> (of_char c :: nat)) s)"

definition NAME_MAX :: nat where
  \<comment> \<open>the longest file name, in bytes, of the file systems of Linux\<close>
  "NAME_MAX = 255"

definition unusable :: "path \<Rightarrow> exn option" where
  \<comment> \<open>what a system call makes of a path: ValueError for a NUL character in it (raised by
      Python before the call), OSError (ENAMETOOLONG) for a component of more than
      \<open>NAME_MAX\<close> bytes; \<open>ROOT_DIR\<close> is taken to be short enough for the whole path\<close>
  "unusable p =
     (if list_ex (\<lambda>n. CHR 0x00 \<in> set n) p then Some ValueError
      else if list_ex (\<lambda>n. NAME_MAX < utf8_length n) p then Some OSError
      else None)"

definition candidate_exists :: "archive \<Rightarrow> path \<Rightarrow> exn + bool" where
  \<comment> \<open>\<open>candidate.exists()\<close>: \<open>Path.exists\<close> answers False on ValueError and on the errors
      that mean "not there", and lets every other OSError through\<close>
  "candidate_exists fs p =
     (case unusable p of
        Some e \<Rightarrow> if e = ValueError then Inr False else Inl e
      | None \<Rightarrow> Inr (path_exists fs p))"

definition write_text :: "archive \<Rightarrow> path \<Rightarrow> content \<Rightarrow> exn + archive" where
  \<comment> \<open>\<open>path.write_text(text, encoding="utf-8")\<close>: the file is created or replaced, unless
      the path cannot be opened\<close>
  "write_text fs p c =
     (case unusable p of
        Some e \<Rightarrow> Inl e
      | None \<Rightarrow> Inr (write_file fs p c))"

definition out_dir :: "date \<Rightarrow> string \<Rightarrow> path" where
  \<comment> \<open>\<open>ensure_output_dir\<close>: \<open>ROOT_DIR / target_date.isoformat() / site_slug / "Original"\<close>\<close>
  "out_dir target_date site_slug = [isoformat target_date, site_slug, ''Original'']"

definition rfind_dot :: "string \<Rightarrow> nat option" where
  \<comment> \<open>\<open>name.rfind('.')\<close>, \<open>None\<close> for -1\<close>
  "rfind_dot name =
     (if CHR ''.'' \<in> set name
      then Some (length name - 1 - length (takeWhile (\<lambda>c. c \<noteq> CHR ''.'') (rev name)))
      else None)"

definition path_suffix :: "string \<Rightarrow> string" where
  \<comment> \<open>\<open>PurePath.suffix\<close> of a path with this final component (pathlib up to Python 3.12)\<close>
  "path_suffix name =
     (case rfind_dot name of
        Some i \<Rightarrow> if 0 < i \<and> i < length name - 1 then drop i name else []
      | None \<Rightarrow> [])"

definition path_stem :: "string \<Rightarrow> string" where
  \<comment> \<open>\<open>PurePath.stem\<close>\<close>
  "path_stem name =
     (case rfind_dot name of
        Some i \<Rightarrow> if 0 < i \<and> i < length name - 1 then take i name else name
      | None \<Rightarrow> name)"

definition numbered :: "string \<Rightarrow> string \<Rightarrow> nat \<Rightarrow> string" where
  \<comment> \<open>\<open>f"{base} ({i}){ext}"\<close>\<close>
  "numbered base ext i = base @ '' ('' @ show_nat i @ '')'' @ ext"

text \<open>
  The loop that looks for a free file name ends because the archive is finite and the
  numbered names are all different; that needs decimal notation to be injective.
\<close>

lemma digits_val_snoc: "digits_val (s @ [c]) = 10 * digits_val s + digit_val c"
  by (simp add: digits_val_def)

lemma digit_cases: "n < 10 \<Longrightarrow> n \<in> {0, 1, 2, 3, 4, 5, 6, 7, 8, 9::nat}"
  by auto

lemma digit_of_any:
  "isdigit (digit_of n)" "digit_val (digit_of n) = n mod 10" "\<not> isspace (digit_of n)"
  "digit_of n \<noteq> CHR ''S''" "digit_of n \<noteq> CHR '',''"
  using digit_cases [of "n mod 10"]
  by (auto simp: digit_of_def digit_chars_def isdigit_def digit_val_def isspace_def
      whitespace_chars_def)

lemma digit_val_digit_of: "digit_val (digit_of n) = n mod 10"
  by (rule digit_of_any)

lemma digits_val_show_nat: "digits_val (show_nat n) = n"
proof (induction n rule: show_nat.induct)
  case (1 n)
  show ?case
  proof (cases "n < 10")
    case True
    then show ?thesis
      by (subst show_nat.simps) (simp add: digits_val_def digit_val_digit_of)
  next
    case False
    with 1 show ?thesis
      by (subst show_nat.simps) (simp add: digits_val_snoc digit_val_digit_of)
  qed
qed

lemma numbered_inject: "numbered base ext i = numbered base ext j \<Longrightarrow> i = j"
proof -
  assume "numbered base ext i = numbered base ext j"
  then have e: "show_nat i @ '')'' @ ext = show_nat j @ '')'' @ ext"
    by (simp add: numbered_def)
  have "length (show_nat i @ '')'' @ ext) = length (show_nat j @ '')'' @ ext)"
    using e by simp
  then have "length (show_nat i) = length (show_nat j)"
    by simp
  with e have "show_nat i = show_nat j"
    by (simp add: append_eq_append_conv)
  then show "i = j"
    using digits_val_show_nat by metis
qed

lemma finite_taken: "finite {k. path_exists fs (dir @ [numbered base ext k])}"
proof -
  have "inj (\<lambda>k. dir @ [numbered base ext k])"
    by (auto simp: inj_def dest: numbered_inject)
  then have "finite ((\<lambda>k. dir @ [numbered base ext k]) -` (fst ` set fs))"
    by (intro finite_vimageI) simp_all
  then show ?thesis
    by (simp add: path_exists_def vimage_def)
qed

function free_name ::
  "archive \<Rightarrow> path \<Rightarrow> string \<Rightarrow> string \<Rightarrow> string \<Rightarrow> nat \<Rightarrow> exn + string" where
  \<comment> \<open>the loop \<open>while candidate.exists(): candidate = out_dir / f"{base} ({i}){ext}"; i += 1\<close>,
      returning the final component of the candidate it ends with, or the exception of a
      test\<close>
  "free_name fs dir base ext candidate i =
     (case candidate_exists fs (dir @ [candidate]) of
        Inl e \<Rightarrow> Inl e
      | Inr found \<Rightarrow>
          if found then free_name fs dir base ext (numbered base ext i) (i + 1)
          else Inr candidate)"
  by pat_completeness auto
termination
proof (relation "measure (\<lambda>(fs, dir, base, ext, candidate, i).
    card {k. i \<le> k \<and> path_exists fs (dir @ [numbered base ext k])} +
    (if path_exists fs (dir @ [candidate]) then 1 else 0))", goal_cases)
  case 1
  show ?case by simp
next
  case (2 fs dir base ext candidate i found)
  then have ex: "path_exists fs (dir @ [candidate])"
    by (simp add: candidate_exists_def split: option.splits if_splits)
  let ?P = "\<lambda>k. path_exists fs (dir @ [numbered base ext k])"
  have split: "{k. i \<le> k \<and> ?P k} = (if ?P i then insert i {k. i + 1 \<le> k \<and> ?P k}
      else {k. i + 1 \<le> k \<and> ?P k})"
    by (auto simp: Suc_le_eq le_less)
  have fin': "finite {k. i + 1 \<le> k \<and> ?P k}"
    using finite_taken [of fs dir base ext] by (rule rev_finite_subset) auto
  have "card {k. i \<le> k \<and> ?P k} = card {k. i + 1 \<le> k \<and> ?P k} + (if ?P i then 1 else 0)"
    using fin' by (subst split) auto
  with ex show ?case
    by simp
qed

declare free_name.simps [simp del]


section \<open>The world outside the program\<close>

record soup =
  anchors :: "string list"
  heading_anchors :: "string list option"
  og_title :: "string option"
  twitter_title :: "string option"
  h1_text :: "string option"
  page_text :: string
  p_texts :: "string list"
  section_meta :: "string option"
  category_link :: "string option"

text \<open>
  What the adapters read off \<open>BeautifulSoup(html, "lxml")\<close>, the parse of a page:
  \<^item> \<open>anchors\<close>: the \<open>href\<close> of every \<open>soup.find_all("a", href=True)\<close>, in document order;
  \<^item> \<open>heading_anchors\<close>: for the first \<open>h1\<close> or \<open>h2\<close> whose text contains "local news", the
    \<open>href\<close> of every \<open>heading.find_all_next("a", href=True)\<close>; \<open>None\<close> without such a heading;
  \<^item> \<open>og_title\<close>, \<open>twitter_title\<close>: the \<open>content\<close> attribute of the first \<open>meta\<close> tag with
    \<open>property="og:title"\<close>, with \<open>name="twitter:title"\<close>; \<open>None\<close> without the tag or the
    attribute;
  \<^item> \<open>h1_text\<close>: \<open>soup.find("h1").get_text(strip=True)\<close>, \<open>None\<close> without an \<open>h1\<close>;
  \<^item> \<open>page_text\<close>: \<open>soup.get_text(" ", strip=True)\<close>;
  \<^item> \<open>p_texts\<close>: \<open>p.get_text(" ", strip=True)\<close> of every \<open>soup.find_all("p")\<close>, in order;
  \<^item> \<open>section_meta\<close>: the \<open>content\<close> of the first \<open>meta\<close> tag with
    \<open>property="article:section"\<close>;
  \<^item> \<open>category_link\<close>: \<open>get_text(strip=True)\<close> of the first \<open>a\<close> whose class matches
    "category" without regard to case.
\<close>

record response =
  html :: soup
  json_body :: "json option"

text \<open>
  A response with a 2xx status: its body as the HTML parser reads it, and as \<open>resp.json()\<close>
  reads it (\<open>None\<close> when the body is not JSON).
\<close>

datatype level = INFO | WARNING | ERROR

datatype log_entry = Log string level string

text \<open>
  One call of the logger: the function that made the call, the level, and the value the
  message is about (a URL, a site slug, a file name); the wording of the message is left
  out.
\<close>

record world =
  net :: "nat \<Rightarrow> string \<Rightarrow> exn + response"
  requests :: "string list"
  log_lines :: "log_entry list"
  files :: archive

text \<open>
  The state the program runs in. \<open>net n u\<close> is what a GET for \<open>u\<close> gives when \<open>n\<close> requests
  have been made before it in this run: a response, or the exception \<open>requests.get\<close> and
  \<open>raise_for_status\<close> raise (any error, timeout or status outside 2xx). \<open>requests\<close> lists
  the URLs requested so far, \<open>log_lines\<close> the logger calls so far, oldest first.
  \<open>time.sleep\<close> has no counterpart.
\<close>

definition log_msg :: "string \<Rightarrow> level \<Rightarrow> string \<Rightarrow> world \<Rightarrow> world" where
  "log_msg func lvl about w = w\<lparr>log_lines := log_lines w @ [Log func lvl about]\<rparr>"

definition http_get :: "string \<Rightarrow> world \<Rightarrow> (exn + response) \<times> world" where
  \<comment> \<open>\<open>requests.get(url, ...)\<close> followed by \<open>resp.raise_for_status()\<close>\<close>
  "http_get u w = (net w (length (requests w)) u, w\<lparr>requests := requests w @ [u]\<rparr>)"

definition fetch_html :: "string \<Rightarrow> world \<Rightarrow> (exn + soup) \<times> world" where
  \<comment> \<open>returns the page as the adapters parse it; a RequestException is logged and raised
      again\<close>
  "fetch_html u w =
     (case http_get u w of
        (Inr r, w') \<Rightarrow> (Inr (html r), w')
      | (Inl e, w') \<Rightarrow>
          (Inl e, if e = RequestException then log_msg ''fetch_html'' ERROR u w' else w'))"

section \<open>The archive writer (scrapers/base.py, save_articles)\<close>

definition choose_candidate :: "archive \<Rightarrow> path \<Rightarrow> string \<Rightarrow> exn + string" where
  \<comment> \<open>the "handle duplicates" block: the file name the article is written under\<close>
  "choose_candidate fs dir filename =
     (case candidate_exists fs (dir @ [filename]) of
        Inl e \<Rightarrow> Inl e
      | Inr found \<Rightarrow>
          if found then free_name fs dir (path_stem filename) (path_suffix filename) filename 2
          else Inr filename)"

fun save_each :: "string \<Rightarrow> path \<Rightarrow> article list \<Rightarrow> world \<Rightarrow> (exn + unit) \<times> world" where
  \<comment> \<open>the loop \<open>for article in valid_articles\<close>; an exception leaves the loop with the files
      written so far (\<open>title_to_filename\<close> raises TypeError on a title that is not a \<open>str\<close>)\<close>
  "save_each site_slug dir [] w = (Inr (), w)"
| "save_each site_slug dir (a # rest) w =
     (case (if truthy (a_title a) then a_title a else JStr ''Untitled'') of
        JStr title \<Rightarrow>
          (case choose_candidate (files w) dir (title_to_filename title) of
             Inl e \<Rightarrow> (Inl e, w)
           | Inr candidate \<Rightarrow>
               (case write_text_article a site_slug of
                  Inl e \<Rightarrow> (Inl e, w)
                | Inr text \<Rightarrow>
                    (case write_text (files w) (dir @ [candidate]) (Text text) of
                       Inl e \<Rightarrow> (Inl e, w)
                     | Inr fs \<Rightarrow>
                         save_each site_slug dir rest
                           (log_msg ''save_articles'' INFO candidate (w\<lparr>files := fs\<rparr>)))))
      | _ \<Rightarrow> (Inl TypeError, w))"

definition save_articles :: "string \<Rightarrow> date \<Rightarrow> article list \<Rightarrow> world \<Rightarrow> (exn + unit) \<times> world"
  where
  \<comment> \<open>Every article of the model is a non-empty dictionary, so \<open>valid_articles\<close> is
      \<open>articles\<close>. Creating the directory is implicit: a path exists once a file is written
      to it, and a directory that cannot be made fails the first write in it with the
      exception \<open>mkdir\<close> raises.\<close>
  "save_articles site_slug target_date articles w =
     (if articles = [] then (Inr (), log_msg ''save_articles'' INFO site_slug w)
      else
        let dir = out_dir target_date site_slug;
            urls = sort (remdups (filter (\<lambda>u. u \<noteq> []) (map a_url articles)));
            url_list_path = dir @ [site_slug @ ''_urls_'' @ isoformat target_date @ ''.json'']
        in case write_text (files w) url_list_path (UrlList urls) of
             Inl e \<Rightarrow> (Inl e, w)
           | Inr fs \<Rightarrow>
               save_each site_slug dir articles
                 (log_msg ''save_articles'' INFO (last url_list_path) (w\<lparr>files := fs\<rparr>)))"

section \<open>The rewrite stage's reader (Old Versions/summarize_archive copy 2.py)\<close>

definition linebreak_chars :: "char list" where
  \<comment> \<open>the line boundaries of \<open>str.splitlines\<close>: LF, CR, VT, FF, FS, GS, RS, NEL\<close>
  "linebreak_chars = [CHR 0x0A, CHR 0x0D, CHR 0x0B, CHR 0x0C, CHR 0x1C, CHR 0x1D, CHR 0x1E,
     CHR 0x85]"

definition is_linebreak :: "char \<Rightarrow> bool" where
  "is_linebreak c = (c \<in> set linebreak_chars)"

fun splitlines_from :: "bool \<Rightarrow> string \<Rightarrow> string \<Rightarrow> string list" where
  \<comment> \<open>\<open>after_cr\<close>: the character before was a CR that ended a line (a LF now belongs to
      it); \<open>cur\<close>: the line being read, backwards\<close>
  "splitlines_from after_cr cur [] = (if cur = [] then [] else [rev cur])"
| "splitlines_from after_cr cur (c # cs) =
     (if after_cr \<and> c = CHR 0x0A then splitlines_from False cur cs
      else if is_linebreak c then rev cur # splitlines_from (c = CHR 0x0D) [] cs
      else splitlines_from False (c # cur) cs)"

definition splitlines :: "string \<Rightarrow> string list" where
  \<comment> \<open>\<open>text.splitlines()\<close>\<close>
  "splitlines s = splitlines_from False [] s"

fun universal_newlines :: "bool \<Rightarrow> string \<Rightarrow> string" where
  \<comment> \<open>reading a file in text mode: CR LF and a lone CR become LF\<close>
  "universal_newlines after_cr [] = []"
| "universal_newlines after_cr (c # cs) =
     (if after_cr \<and> c = CHR 0x0A then universal_newlines False cs
      else if c = CHR 0x0D then CHR 0x0A # universal_newlines True cs
      else c # universal_newlines False cs)"

definition read_text :: "string \<Rightarrow> string" where
  \<comment> \<open>\<open>path.read_text(encoding="utf-8", errors="ignore")\<close> of a file holding this text\<close>
  "read_text stored = universal_newlines False stored"

record article_metadata =
  m_title :: "string option"
  m_url :: "string option"
  m_published :: "string option"
  m_site :: "string option"

record parse_state =
  ps_meta :: article_metadata
  ps_body :: "string list"

definition after_first_colon :: "string \<Rightarrow> string" where
  \<comment> \<open>\<open>s.split(":", 1)[-1]\<close>\<close>
  "after_first_colon s =
     (case dropWhile (\<lambda>c. c \<noteq> CHR '':'') s of [] \<Rightarrow> s | _ # r \<Rightarrow> r)"

fun parse_lines :: "string list \<Rightarrow> parse_state \<Rightarrow> parse_state" where
  "parse_lines [] st = st"
| "parse_lines (line # rest) st =
     (let stripped = strip line in
      if stripped = [] then parse_lines rest st
      else if m_title (ps_meta st) = None \<and> CHR '':'' \<notin> set stripped
      then parse_lines rest (st\<lparr>ps_meta := (ps_meta st)\<lparr>m_title := Some stripped\<rparr>\<rparr>)
      else
        let low = lower stripped;
            val = strip (after_first_colon stripped)
        in if startswith low ''site:''
           then parse_lines rest (st\<lparr>ps_meta := (ps_meta st)\<lparr>m_site := Some val\<rparr>\<rparr>)
           else if startswith low ''published:''
           then parse_lines rest (st\<lparr>ps_meta := (ps_meta st)\<lparr>m_published := Some val\<rparr>\<rparr>)
           else if startswith low ''url:''
           then parse_lines rest (st\<lparr>ps_meta := (ps_meta st)\<lparr>m_url := Some val\<rparr>\<rparr>)
           else parse_lines rest (st\<lparr>ps_body := ps_body st @ [line]\<rparr>))"

definition parse_article_file :: "string \<Rightarrow> article_metadata \<times> string" where
  \<comment> \<open>the metadata read from a file holding \<open>stored\<close>, and the body text\<close>
  "parse_article_file stored =
     (let st = parse_lines (splitlines (read_text stored))
                 \<lparr>ps_meta = \<lparr>m_title = None, m_url = None, m_published = None, m_site = None\<rparr>,
                  ps_body = []\<rparr>
      in (ps_meta st, strip (join ''\<newline>'' (ps_body st))))"


section \<open>Library functions left open\<close>

record pylib =
  urljoin :: "string \<Rightarrow> string \<Rightarrow> exn + string"
  str_of :: "json \<Rightarrow> string"
  markup_paragraphs :: "string \<Rightarrow> string list"
  odd_markup :: "json \<Rightarrow> exn + string list"

text \<open>
  What the adapters take from libraries and this development does not spell out:
  \<^item> \<open>urljoin base url\<close>: \<open>urllib.parse.urljoin\<close> on two non-empty \<open>str\<close> (a ValueError is
    possible, for a malformed host);
  \<^item> \<open>str_of v\<close>: \<open>str(v)\<close> of a decoded JSON value;
  \<^item> \<open>markup_paragraphs s\<close>: \<open>p.get_text(" ", strip=True)\<close> of every \<open>p\<close> of
    \<open>BeautifulSoup(s, "lxml")\<close>, in order, for a \<open>str\<close>;
  \<^item> \<open>odd_markup v\<close>: the same when \<open>BeautifulSoup\<close> is handed a value that is neither a
    \<open>str\<close> nor a list, or the exception it raises then.
  A theorem about \<open>lib\<close> holds for every such library; the sample runs use \<open>sample_lib\<close>.
\<close>

section \<open>What the four HTML adapters share\<close>

definition MAX_ARTICLES :: nat where
  \<comment> \<open>the same constant in wmur.py, wcax.py, vtdigger.py and mykeenenow.py\<close>
  "MAX_ARTICLES = 60"

definition any_in :: "string list \<Rightarrow> string \<Rightarrow> bool" where
  \<comment> \<open>\<open>any(x in s for x in xs)\<close>\<close>
  "any_in xs s = list_ex (\<lambda>x. contains x s) xs"

definition text_date :: "string \<Rightarrow> exn + date option" where
  \<comment> \<open>\<open>match = DATE_PATTERN.search(text)\<close>, then \<open>parse_us_date_string(match.group(0))\<close>
      when there is a match\<close>
  "text_date page =
     (case date_pattern_search page of
        Some m \<Rightarrow> parse_us_date_string m
      | None \<Rightarrow> Inr None)"

fun scrape_loop ::
  "string \<Rightarrow> (string \<Rightarrow> date \<Rightarrow> world \<Rightarrow> (exn + article option) \<times> world) \<Rightarrow>
   (article \<Rightarrow> bool) \<Rightarrow> date \<Rightarrow> string list \<Rightarrow> world \<Rightarrow> article list \<times> world" where
  \<comment> \<open>the loop of every \<open>scrape\<close>: log the URL, call the module's \<open>scrape_article\<close>, keep the
      article (in wmur.py only when its date is the target date), log any exception and go
      on\<close>
  "scrape_loop site scrape_article keep target_date [] w = ([], w)"
| "scrape_loop site scrape_article keep target_date (u # urls) w =
     (case scrape_article u target_date (log_msg site INFO u w) of
        (Inl e, w1) \<Rightarrow>
          scrape_loop site scrape_article keep target_date urls (log_msg site ERROR u w1)
      | (Inr None, w1) \<Rightarrow> scrape_loop site scrape_article keep target_date urls w1
      | (Inr (Some art), w1) \<Rightarrow>
          (case scrape_loop site scrape_article keep target_date urls w1 of
             (arts, w2) \<Rightarrow> (if keep art then art # arts else arts, w2)))"

definition url_date_here :: "string \<Rightarrow> (string \<times> string \<times> string) option" where
  \<comment> \<open>\<open>/(\d{4})/(\d{2})/(\d{2})/\<close> matched at the start of \<open>s\<close>: the three groups\<close>
  "url_date_here s =
     (if length s \<ge> 12 \<and> s ! 0 = CHR ''/'' \<and> list_all isdigit (take 4 (drop 1 s)) \<and>
         s ! 5 = CHR ''/'' \<and> list_all isdigit (take 2 (drop 6 s)) \<and> s ! 8 = CHR ''/'' \<and>
         list_all isdigit (take 2 (drop 9 s)) \<and> s ! 11 = CHR ''/''
      then Some (take 4 (drop 1 s), take 2 (drop 6 s), take 2 (drop 9 s))
      else None)"

fun url_date_search :: "string \<Rightarrow> (string \<times> string \<times> string) option" where
  \<comment> \<open>\<open>re.search\<close> of that pattern: the groups of the leftmost match\<close>
  "url_date_search [] = None"
| "url_date_search (c # s) =
     (case url_date_here (c # s) of
        Some g \<Rightarrow> Some g
      | None \<Rightarrow> url_date_search s)"

definition url_date :: "string \<Rightarrow> exn + date option" where
  \<comment> \<open>the date in a URL: \<open>None\<close> without a match, else \<open>date(int(y), int(m), int(d))\<close>\<close>
  "url_date u =
     (case url_date_search u of
        None \<Rightarrow> Inr None
      | Some (y, m, d) \<Rightarrow>
          (case date_new (int (digits_val y)) (int (digits_val m)) (int (digits_val d)) of
             Inl e \<Rightarrow> Inl e
           | Inr ud \<Rightarrow> Inr (Some ud)))"

fun dated_links :: "pylib \<Rightarrow> string \<Rightarrow> date \<Rightarrow> string list \<Rightarrow> string list \<Rightarrow> exn + string list"
  where
  \<comment> \<open>the loop over the anchors in \<open>get_urls_for_date\<close> of wcax.py and of vtdigger.py, the
      same but for \<open>BASE_URL\<close>; \<open>seen\<close> holds what \<open>urls\<close> holds\<close>
  "dated_links lib base target_date [] urls = Inr urls"
| "dated_links lib base target_date (a # hrefs) urls =
     (if a = [] then dated_links lib base target_date hrefs urls
      else
        case (if startswith a ''/'' then urljoin lib base a else Inr a) of
          Inl e \<Rightarrow> Inl e
        | Inr href \<Rightarrow>
            if \<not> startswith href base then dated_links lib base target_date hrefs urls
            else
              case url_date href of
                Inl e \<Rightarrow>
                  if e = ValueError then dated_links lib base target_date hrefs urls
                  else Inl e
              | Inr None \<Rightarrow> dated_links lib base target_date hrefs urls
              | Inr (Some ud) \<Rightarrow>
                  if ud \<noteq> target_date then dated_links lib base target_date hrefs urls
                  else if href \<in> set urls then dated_links lib base target_date hrefs urls
                  else if length (urls @ [href]) \<ge> MAX_ARTICLES then Inr (urls @ [href])
                  else dated_links lib base target_date hrefs (urls @ [href]))"

section \<open>The WMUR adapter (scrapers/wmur.py)\<close>

definition wmur_BASE_URL :: string where
  "wmur_BASE_URL = ''https://www.wmur.com''"

definition wmur_LOCAL_NEWS_URL :: string where
  "wmur_LOCAL_NEWS_URL = wmur_BASE_URL @ ''/local-news''"

definition NON_NEWS_KEYWORDS :: "string list" where
  "NON_NEWS_KEYWORDS = [''grow-it-green'', ''nh-chronicle'', ''forecast'', ''hour-by-hour'']"

definition suffix_here :: "string \<Rightarrow> bool" where
  \<comment> \<open>\<open>\s*[-|]\s*WMUR.*$\<close>, case ignored, matched at the start of \<open>s\<close>: the dot stops at a
      newline and \<open>$\<close> holds at the end or before a final newline\<close>
  "suffix_here s =
     (case dropWhile isspace s of
        [] \<Rightarrow> False
      | c # r \<Rightarrow>
          (c = CHR ''-'' \<or> c = CHR ''|'') \<and>
          (let t = dropWhile isspace r;
               rest = drop 4 t;
               line = takeWhile (\<lambda>c. c \<noteq> CHR 0x0A) rest
           in lower (take 4 t) = ''wmur'' \<and> (rest = line \<or> rest = line @ [CHR 0x0A])))"

fun strip_site_suffix :: "string \<Rightarrow> string" where
  \<comment> \<open>\<open>re.sub(r"\s*[-|]\s*WMUR.*$", "", title, flags=re.IGNORECASE)\<close>: a match runs to the
      end of the title, or to its final newline, which is kept\<close>
  "strip_site_suffix [] = []"
| "strip_site_suffix (c # s) =
     (if suffix_here (c # s) then (if last (c # s) = CHR 0x0A then [CHR 0x0A] else [])
      else c # strip_site_suffix s)"

definition wmur_extract_title :: "soup \<Rightarrow> string" where
  "wmur_extract_title page =
     strip (strip_site_suffix
       (case og_title page of
          Some (c # cs) \<Rightarrow> strip (c # cs)
        | _ \<Rightarrow>
            (case twitter_title page of
               Some (c # cs) \<Rightarrow> strip (c # cs)
             | _ \<Rightarrow> (case h1_text page of Some h \<Rightarrow> h | None \<Rightarrow> ''Untitled''))))"

fun wmur_collect :: "string list \<Rightarrow> string list \<Rightarrow> string list" where
  \<comment> \<open>the loop over the anchors in \<open>get_candidate_urls\<close>\<close>
  "wmur_collect [] urls = urls"
| "wmur_collect (a # hrefs) urls =
     (if a = [] then wmur_collect hrefs urls
      else
        let href = (if startswith a ''/'' then wmur_BASE_URL @ a else a) in
        if \<not> startswith href wmur_BASE_URL then wmur_collect hrefs urls
        else if \<not> contains ''/article/'' href then wmur_collect hrefs urls
        else if any_in NON_NEWS_KEYWORDS (lower href) then wmur_collect hrefs urls
        else if href \<in> set urls then wmur_collect hrefs urls
        else if length (urls @ [href]) \<ge> MAX_ARTICLES then urls @ [href]
        else wmur_collect hrefs (urls @ [href]))"

definition wmur_get_candidate_urls :: "world \<Rightarrow> (exn + string list) \<times> world" where
  "wmur_get_candidate_urls w =
     (case fetch_html wmur_LOCAL_NEWS_URL w of
        (Inl e, w1) \<Rightarrow> (Inl e, w1)
      | (Inr page, w1) \<Rightarrow>
          (Inr (wmur_collect
                  (case heading_anchors page of Some hs \<Rightarrow> hs | None \<Rightarrow> anchors page) []),
           w1))"

fun wmur_paragraphs :: "string list \<Rightarrow> string list" where
  \<comment> \<open>the loop over \<open>soup.find_all("p")\<close> in \<open>scrape_article\<close>\<close>
  "wmur_paragraphs [] = []"
| "wmur_paragraphs (t # ts) =
     (if t = [] then wmur_paragraphs ts
      else if any_in [''subscribe to wmur's youtube channel'', ''hearst television participates'']
                (lower t)
      then []
      else if any_in [''download the free wmur app'', ''get the wmur app'', ''copyright'']
                (lower t) \<and> contains ''wmur'' (lower t)
      then wmur_paragraphs ts
      else t # wmur_paragraphs ts)"

definition wmur_scrape_article :: "string \<Rightarrow> date \<Rightarrow> world \<Rightarrow> (exn + article option) \<times> world"
  where
  "wmur_scrape_article url fallback_date w =
     (case fetch_html url w of
        (Inl e, w1) \<Rightarrow> (Inl e, w1)
      | (Inr page, w1) \<Rightarrow>
          let title = wmur_extract_title page in
          if contains ''wmur'' (lower title) \<or> contains ''hearst television news'' (lower title)
          then (Inr None, log_msg ''wmur'' INFO title w1)
          else
            case text_date (page_text page) of
              Inl e \<Rightarrow> (Inl e, w1)
            | Inr found \<Rightarrow>
                (Inr (Some \<lparr>a_url = url, a_title = JStr title,
                            a_date = Some (case found of Some pd \<Rightarrow> pd | None \<Rightarrow> fallback_date),
                            a_paragraphs = wmur_paragraphs (p_texts page)\<rparr>),
                 w1))"

definition wmur_scrape :: "date \<Rightarrow> world \<Rightarrow> (exn + article list) \<times> world" where
  "wmur_scrape target_date w =
     (case wmur_get_candidate_urls (log_msg ''wmur'' INFO wmur_LOCAL_NEWS_URL w) of
        (Inl e, w1) \<Rightarrow> (Inl e, w1)
      | (Inr candidates, w1) \<Rightarrow>
          (case scrape_loop ''wmur'' wmur_scrape_article (\<lambda>art. a_date art = Some target_date)
                  target_date candidates
                  (log_msg ''wmur'' INFO (show_nat (length candidates)) w1) of
             (arts, w2) \<Rightarrow> (Inr arts, w2)))"

section \<open>The WCAX adapter (scrapers/wcax.py)\<close>

definition wcax_BASE_URL :: string where
  "wcax_BASE_URL = ''https://www.wcax.com''"

definition wcax_NEWS_URL :: string where
  "wcax_NEWS_URL = wcax_BASE_URL @ ''/news/''"

definition LOCAL_CATEGORIES :: "string list" where
  "LOCAL_CATEGORIES = [''vermont'', ''new hampshire'', ''local'', ''vt'', ''nh'', ''news'',
     ''crime'', ''education'', ''health'', ''politics'', ''business'']"

definition EXCLUDE_TITLES :: "string list" where
  "EXCLUDE_TITLES = [''programming note'', ''this day in history'', ''history'']"

definition wcax_get_urls_for_date :: "pylib \<Rightarrow> date \<Rightarrow> world \<Rightarrow> (exn + string list) \<times> world"
  where
  "wcax_get_urls_for_date lib target_date w =
     (case fetch_html wcax_NEWS_URL w of
        (Inl e, w1) \<Rightarrow> (Inl e, w1)
      | (Inr page, w1) \<Rightarrow> (dated_links lib wcax_BASE_URL target_date (anchors page) [], w1))"

definition extract_category :: "soup \<Rightarrow> string" where
  "extract_category page =
     (case section_meta page of
        Some (c # cs) \<Rightarrow> strip (c # cs)
      | _ \<Rightarrow> (case category_link page of Some t \<Rightarrow> t | None \<Rightarrow> []))"

definition wcax_paragraphs :: "string list \<Rightarrow> string list" where
  "wcax_paragraphs ts =
     filter (\<lambda>t. t \<noteq> [] \<and> \<not> (contains ''copyright'' (lower t) \<and> contains ''wcax'' (lower t))) ts"

definition wcax_scrape_article :: "string \<Rightarrow> date \<Rightarrow> world \<Rightarrow> (exn + article option) \<times> world"
  where
  "wcax_scrape_article url fallback_date w =
     (case fetch_html url w of
        (Inl e, w1) \<Rightarrow> (Inl e, w1)
      | (Inr page, w1) \<Rightarrow>
          let title = (case h1_text page of Some h \<Rightarrow> h | None \<Rightarrow> ''Untitled'');
              category = lower (extract_category page)
          in
          if any_in EXCLUDE_TITLES (lower title) then (Inr None, log_msg ''wcax'' INFO title w1)
          else if category \<noteq> [] \<and> \<not> any_in LOCAL_CATEGORIES category
          then (Inr None, log_msg ''wcax'' INFO category (log_msg ''wcax'' INFO url w1))
          else
            case (case url_date url of
                    Inl e \<Rightarrow> if e = ValueError then Inr fallback_date else Inl e
                  | Inr None \<Rightarrow> Inr fallback_date
                  | Inr (Some ud) \<Rightarrow> Inr ud) of
              Inl e \<Rightarrow> (Inl e, w1)
            | Inr pub_date \<Rightarrow>
                (Inr (Some \<lparr>a_url = url, a_title = JStr title, a_date = Some pub_date,
                            a_paragraphs = wcax_paragraphs (p_texts page)\<rparr>),
                 w1))"

definition wcax_scrape :: "pylib \<Rightarrow> date \<Rightarrow> world \<Rightarrow> (exn + article list) \<times> world" where
  "wcax_scrape lib target_date w =
     (case wcax_get_urls_for_date lib target_date (log_msg ''wcax'' INFO (isoformat target_date) w)
      of
        (Inl e, w1) \<Rightarrow> (Inl e, w1)
      | (Inr urls, w1) \<Rightarrow>
          (case scrape_loop ''wcax'' wcax_scrape_article (\<lambda>art. True) target_date urls
                  (log_msg ''wcax'' INFO (show_nat (length urls)) w1) of
             (arts, w2) \<Rightarrow> (Inr arts, w2)))"

section \<open>The VTDigger adapter (scrapers/vtdigger.py)\<close>

definition vtdigger_BASE_URL :: string where
  "vtdigger_BASE_URL = ''https://vtdigger.org''"

definition vtdigger_get_urls_for_date ::
  "pylib \<Rightarrow> date \<Rightarrow> world \<Rightarrow> (exn + string list) \<times> world" where
  "vtdigger_get_urls_for_date lib target_date w =
     (case fetch_html vtdigger_BASE_URL w of
        (Inl e, w1) \<Rightarrow> (Inl e, w1)
      | (Inr page, w1) \<Rightarrow> (dated_links lib vtdigger_BASE_URL target_date (anchors page) [], w1))"

fun vtdigger_paragraphs :: "bool \<Rightarrow> string list \<Rightarrow> string list option" where
  \<comment> \<open>the loop over \<open>soup.find_all("p")\<close> in \<open>scrape_article\<close>; \<open>None\<close> when the loop leaves
      with \<open>return None\<close>\<close>
  "vtdigger_paragraphs first_paragraph_checked [] = Some []"
| "vtdigger_paragraphs first_paragraph_checked (t # ts) =
     (if t = [] then vtdigger_paragraphs first_paragraph_checked ts
      else if \<not> first_paragraph_checked \<and>
              (contains ''commentaries are opinion pieces contributed by readers and newsmakers''
                 (lower t) \<or> startswith t ''Born'')
      then None
      else if contains ''young writers project'' (lower t) \<or> contains ''giving tuesday'' (lower t)
      then None
      else if any_in [''have something to say? submit a commentary here'',
                      ''vermont's newsletter'', ''request a correction''] (lower t)
      then Some []
      else if lower t \<in> set [''vtdigger'', ''news in pursuit of truth''] \<or>
              contains ''reader donations'' (lower t)
      then vtdigger_paragraphs True ts
      else map_option (\<lambda>ps. t # ps) (vtdigger_paragraphs True ts))"

definition vtdigger_scrape_article ::
  "string \<Rightarrow> date \<Rightarrow> world \<Rightarrow> (exn + article option) \<times> world" where
  "vtdigger_scrape_article url fallback_date w =
     (case fetch_html url w of
        (Inl e, w1) \<Rightarrow> (Inl e, w1)
      | (Inr page, w1) \<Rightarrow>
          let title = (case h1_text page of Some h \<Rightarrow> h | None \<Rightarrow> ''Untitled'');
              clean_title = strip (lower title)
          in
          if clean_title \<in> set [''vtdigger'', ''vtdiggers''] \<or>
             contains ''vtdigger announces'' clean_title \<or> contains ''giving tuesday'' clean_title
          then (Inr None, log_msg ''vtdigger'' INFO title w1)
          else
            case (case url_date url of
                    Inl e \<Rightarrow> if e = ValueError then text_date (page_text page) else Inl e
                  | Inr None \<Rightarrow> text_date (page_text page)
                  | Inr (Some ud) \<Rightarrow> Inr (Some ud)) of
              Inl e \<Rightarrow> (Inl e, w1)
            | Inr found \<Rightarrow>
                (case vtdigger_paragraphs False (p_texts page) of
                   None \<Rightarrow> (Inr None, log_msg ''vtdigger'' INFO title w1)
                 | Some ps \<Rightarrow>
                     (Inr (Some \<lparr>a_url = url, a_title = JStr title,
                                 a_date = Some (case found of Some pd \<Rightarrow> pd
                                                | None \<Rightarrow> fallback_date),
                                 a_paragraphs = ps\<rparr>),
                      w1)))"

definition vtdigger_scrape :: "pylib \<Rightarrow> date \<Rightarrow> world \<Rightarrow> (exn + article list) \<times> world" where
  "vtdigger_scrape lib target_date w =
     (case vtdigger_get_urls_for_date lib target_date
             (log_msg ''vtdigger'' INFO (isoformat target_date) w) of
        (Inl e, w1) \<Rightarrow> (Inl e, w1)
      | (Inr urls, w1) \<Rightarrow>
          (case scrape_loop ''vtdigger'' vtdigger_scrape_article (\<lambda>art. True) target_date urls
                  (log_msg ''vtdigger'' INFO (show_nat (length urls)) w1) of
             (arts, w2) \<Rightarrow> (Inr arts, w2)))"

section \<open>The MyKeeneNow adapter (scrapers/mykeenenow.py)\<close>

definition mykeenenow_BASE_URL :: string where
  "mykeenenow_BASE_URL = ''https://mykeenenow.com''"

definition mykeenenow_NEWS_URL :: string where
  "mykeenenow_NEWS_URL = mykeenenow_BASE_URL @ ''/news/''"

fun news_links :: "pylib \<Rightarrow> string list \<Rightarrow> string list \<Rightarrow> exn + string list" where
  \<comment> \<open>the first loop of \<open>get_urls_for_date\<close>: the candidates, without a cap\<close>
  "news_links lib [] candidates = Inr candidates"
| "news_links lib (a # hrefs) candidates =
     (if a = [] then news_links lib hrefs candidates
      else
        case (if startswith a ''/'' then urljoin lib mykeenenow_BASE_URL a else Inr a) of
          Inl e \<Rightarrow> Inl e
        | Inr href \<Rightarrow>
            if \<not> startswith href mykeenenow_BASE_URL then news_links lib hrefs candidates
            else if \<not> contains ''/news/'' href then news_links lib hrefs candidates
            else if href \<in> set candidates then news_links lib hrefs candidates
            else news_links lib hrefs (candidates @ [href]))"

fun date_checks :: "date \<Rightarrow> string list \<Rightarrow> string list \<Rightarrow> world \<Rightarrow> string list \<times> world" where
  \<comment> \<open>the second loop of \<open>get_urls_for_date\<close>: every candidate is fetched and its date
      compared, until \<open>MAX_ARTICLES\<close> of them have matched\<close>
  "date_checks target_date [] valid_urls w = (valid_urls, w)"
| "date_checks target_date (u # candidates) valid_urls w =
     (if length valid_urls \<ge> MAX_ARTICLES then (valid_urls, w)
      else
        case fetch_html u (log_msg ''mykeenenow'' INFO u w) of
          (Inl e, w1) \<Rightarrow>
            date_checks target_date candidates valid_urls (log_msg ''mykeenenow'' WARNING u w1)
        | (Inr page, w1) \<Rightarrow>
            (case text_date (page_text page) of
               Inl e \<Rightarrow>
                 date_checks target_date candidates valid_urls
                   (log_msg ''mykeenenow'' WARNING u w1)
             | Inr found \<Rightarrow>
                 date_checks target_date candidates
                   (if found = Some target_date then valid_urls @ [u] else valid_urls) w1))"

definition mykeenenow_get_urls_for_date ::
  "pylib \<Rightarrow> date \<Rightarrow> world \<Rightarrow> (exn + string list) \<times> world" where
  "mykeenenow_get_urls_for_date lib target_date w =
     (case fetch_html mykeenenow_NEWS_URL w of
        (Inl e, w1) \<Rightarrow> (Inl e, w1)
      | (Inr page, w1) \<Rightarrow>
          (case news_links lib (anchors page) [] of
             Inl e \<Rightarrow> (Inl e, w1)
           | Inr candidates \<Rightarrow>
               (case date_checks target_date candidates [] w1 of
                  (valid_urls, w2) \<Rightarrow> (Inr valid_urls, w2))))"

definition mykeenenow_paragraphs :: "string list \<Rightarrow> string list" where
  \<comment> \<open>\<open>CHR 0xA9\<close> is the copyright sign of \<open>"story \<dots>"\<close>\<close>
  "mykeenenow_paragraphs ts =
     filter (\<lambda>t. t \<noteq> [] \<and>
        \<not> (contains (''story '' @ [CHR 0xA9]) (lower t) \<and>
           contains ''saga communications'' (lower t))) ts"

definition mykeenenow_scrape_article ::
  "string \<Rightarrow> date \<Rightarrow> world \<Rightarrow> (exn + article option) \<times> world" where
  "mykeenenow_scrape_article url fallback_date w =
     (case fetch_html url w of
        (Inl e, w1) \<Rightarrow> (Inl e, w1)
      | (Inr page, w1) \<Rightarrow>
          (case text_date (page_text page) of
             Inl e \<Rightarrow> (Inl e, w1)
           | Inr found \<Rightarrow>
               (Inr (Some \<lparr>a_url = url,
                           a_title = JStr (case h1_text page of Some h \<Rightarrow> h | None \<Rightarrow> ''Untitled''),
                           a_date = Some (case found of Some pd \<Rightarrow> pd | None \<Rightarrow> fallback_date),
                           a_paragraphs = mykeenenow_paragraphs (p_texts page)\<rparr>),
                w1)))"

definition mykeenenow_scrape :: "pylib \<Rightarrow> date \<Rightarrow> world \<Rightarrow> (exn + article list) \<times> world" where
  "mykeenenow_scrape lib target_date w =
     (case mykeenenow_get_urls_for_date lib target_date
             (log_msg ''mykeenenow'' INFO (isoformat target_date) w) of
        (Inl e, w1) \<Rightarrow> (Inl e, w1)
      | (Inr urls, w1) \<Rightarrow>
          (case scrape_loop ''mykeenenow'' mykeenenow_scrape_article (\<lambda>art. True) target_date urls
                  (log_msg ''mykeenenow'' INFO (show_nat (length urls)) w1) of
             (arts, w2) \<Rightarrow> (Inr arts, w2)))"


section \<open>Decoded JSON as the two API adapters handle it\<close>

text \<open>
  A \<open>json\<close> value is what \<open>resp.json()\<close> returns: \<open>JObj\<close> is a \<open>dict\<close> (its keys distinct,
  in insertion order), \<open>JArr\<close> a \<open>list\<close>, \<open>JNum\<close> an \<open>int\<close>; numbers with a fraction are
  left out. The interpreter is CPython 3.11: there a number of more than 4300 digits is not
  converted by \<open>int\<close> (ValueError), and a \<open>dict\<close> subscripted with a slice raises TypeError.
\<close>

definition py_get :: "json \<Rightarrow> string \<Rightarrow> json \<Rightarrow> exn + json" where
  \<comment> \<open>\<open>obj.get(key, default)\<close>; only a \<open>dict\<close> has the method\<close>
  "py_get obj key dflt =
     (case obj of
        JObj kvs \<Rightarrow> Inr (case map_of kvs key of Some v \<Rightarrow> v | None \<Rightarrow> dflt)
      | _ \<Rightarrow> Inl AttributeError)"

fun first_truthy :: "json list \<Rightarrow> json" where
  \<comment> \<open>\<open>a or b or c\<close>\<close>
  "first_truthy [] = JNull"
| "first_truthy [v] = v"
| "first_truthy (v # w # vs) = (if truthy v then v else first_truthy (w # vs))"

fun split_on :: "char \<Rightarrow> string \<Rightarrow> string list" where
  \<comment> \<open>\<open>s.split(sep)\<close> for a separator of one character\<close>
  "split_on sep [] = [[]]"
| "split_on sep (c # s) =
     (if c = sep then [] # split_on sep s
      else case split_on sep s of
             [] \<Rightarrow> [[c]]
           | p # ps \<Rightarrow> (c # p) # ps)"

fun grouped_digits :: "bool \<Rightarrow> string \<Rightarrow> bool" where
  \<comment> \<open>decimal digits, single underscores allowed between two of them; \<open>after_digit\<close>: the
      character before was a digit\<close>
  "grouped_digits after_digit [] = after_digit"
| "grouped_digits after_digit (c # s) =
     (if isdigit c then grouped_digits True s
      else c = CHR ''_'' \<and> after_digit \<and> grouped_digits False s)"

definition py_int :: "string \<Rightarrow> exn + int" where
  \<comment> \<open>\<open>int(s)\<close> of a \<open>str\<close>: whitespace around, a sign, grouped digits\<close>
  "py_int s =
     (let t = strip s;
          body = (case t of c # r \<Rightarrow> if c = CHR ''+'' \<or> c = CHR ''-'' then r else t | [] \<Rightarrow> t);
          ds = filter isdigit body
      in if grouped_digits False body \<and> length ds \<le> 4300
         then Inr (if startswith t ''-'' then - int (digits_val ds) else int (digits_val ds))
         else Inl ValueError)"

definition iso_day :: "json \<Rightarrow> exn + date" where
  \<comment> \<open>the body of the \<open>try\<close>: \<open>dt_str = start_time_str.split("T")[0]\<close>,
      \<open>y, m, d = map(int, dt_str.split("-"))\<close>, \<open>date(y, m, d)\<close>\<close>
  "iso_day start_time_str =
     (case start_time_str of
        JStr s \<Rightarrow>
          (case split_on (CHR ''-'') (hd (split_on (CHR ''T'') s)) of
             [a, b, c] \<Rightarrow>
               (case (py_int a, py_int b, py_int c) of
                  (Inr y, Inr m, Inr d) \<Rightarrow> date_new y m d
                | _ \<Rightarrow> Inl ValueError)
           | _ \<Rightarrow> Inl ValueError)
      | _ \<Rightarrow> Inl AttributeError)"

definition join_url :: "pylib \<Rightarrow> string \<Rightarrow> json \<Rightarrow> exn + string" where
  \<comment> \<open>\<open>urljoin(BASE_URL, raw_url)\<close>: the base for a false value, TypeError for a true value
      that is not a \<open>str\<close>\<close>
  "join_url lib base raw_url =
     (if \<not> truthy raw_url then Inr base
      else case raw_url of JStr u \<Rightarrow> urljoin lib base u | _ \<Rightarrow> Inl TypeError)"

definition clean_html_text :: "pylib \<Rightarrow> string list \<Rightarrow> json \<Rightarrow> exn + string list" where
  \<comment> \<open>\<open>clean_html_text\<close> of keenesentinel.py and of reformer.py, the same but for the list
      \<open>stops\<close>\<close>
  "clean_html_text lib stops raw_html =
     (if \<not> truthy raw_html then Inr []
      else
        case (case raw_html of
                JArr xs \<Rightarrow> Inr (markup_paragraphs lib (concat (map (str_of lib) xs)))
              | JStr s \<Rightarrow> Inr (markup_paragraphs lib s)
              | _ \<Rightarrow> odd_markup lib raw_html) of
          Inl e \<Rightarrow> Inl e
        | Inr ts \<Rightarrow>
            Inr (filter (\<lambda>t. t \<noteq> [] \<and> \<not> (any_in stops (lower t) \<and> length (lower t) < 50)) ts))"

definition sliceable :: "json \<Rightarrow> bool" where
  \<comment> \<open>\<open>title[:30]\<close> is defined for a \<open>str\<close> and a list only\<close>
  "sliceable v = (case v of JStr s \<Rightarrow> True | JArr xs \<Rightarrow> True | _ \<Rightarrow> False)"

definition blox_row ::
  "pylib \<Rightarrow> string \<Rightarrow> string list \<Rightarrow> string list \<Rightarrow> date \<Rightarrow> json \<Rightarrow> exn + article option" where
  \<comment> \<open>One turn of the loop over \<open>rows\<close> in \<open>scrape\<close> of keenesentinel.py and of reformer.py,
      the same but for \<open>BASE_URL\<close>, the keys tried in \<open>starttime\<close> and the stop words: the
      article appended, \<open>None\<close> for \<open>continue\<close>, or the exception that leaves \<open>scrape\<close>.\<close>
  "blox_row lib base keys stops target_date row =
     (case py_get row ''starttime'' JNull of
        Inl e \<Rightarrow> Inl e
      | Inr start_time_obj \<Rightarrow>
          let start_time_str =
                (case start_time_obj of
                   JObj kvs \<Rightarrow>
                     first_truthy
                       (map (\<lambda>k. case map_of kvs k of Some v \<Rightarrow> v | None \<Rightarrow> JNull) keys)
                 | JStr s \<Rightarrow> JStr s
                 | _ \<Rightarrow> JStr [])
          in
          if \<not> truthy start_time_str then Inr None
          else
            case iso_day start_time_str of
              Inl e \<Rightarrow> if e = ValueError \<or> e = AttributeError then Inr None else Inl e
            | Inr pub_date \<Rightarrow>
                if pub_date \<noteq> target_date then Inr None
                else
                  case (py_get row ''title'' (JStr ''Untitled''), py_get row ''url'' (JStr []),
                        py_get row ''content'' JNull, py_get row ''body'' JNull) of
                    (Inr title, Inr raw_url, Inr content, Inr body) \<Rightarrow>
                      (case join_url lib base raw_url of
                         Inl e \<Rightarrow> Inl e
                       | Inr url \<Rightarrow>
                           let raw_body = (if truthy content then content else body) in
                           if \<not> truthy raw_body then Inr None
                           else
                             case clean_html_text lib stops raw_body of
                               Inl e \<Rightarrow> Inl e
                             | Inr paragraphs \<Rightarrow>
                                 if paragraphs = [] then Inr None
                                 else if \<not> sliceable title then Inl TypeError
                                 else Inr (Some \<lparr>a_url = url, a_title = title,
                                                 a_date = Some pub_date,
                                                 a_paragraphs = paragraphs\<rparr>))
                  | _ \<Rightarrow> Inl AttributeError)"

fun blox_rows ::
  "pylib \<Rightarrow> string \<Rightarrow> string \<Rightarrow> string list \<Rightarrow> string list \<Rightarrow> date \<Rightarrow> json list \<Rightarrow> world \<Rightarrow>
   (exn + article list) \<times> world" where
  \<comment> \<open>the loop \<open>for row in rows\<close>; each article kept is logged\<close>
  "blox_rows lib site base keys stops target_date [] w = (Inr [], w)"
| "blox_rows lib site base keys stops target_date (row # rows) w =
     (case blox_row lib base keys stops target_date row of
        Inl e \<Rightarrow> (Inl e, w)
      | Inr None \<Rightarrow> blox_rows lib site base keys stops target_date rows w
      | Inr (Some art) \<Rightarrow>
          (case blox_rows lib site base keys stops target_date rows
                  (log_msg site INFO (a_url art) w) of
             (Inl e, w1) \<Rightarrow> (Inl e, w1)
           | (Inr arts, w1) \<Rightarrow> (Inr (art # arts), w1)))"

definition rows_of :: "json \<Rightarrow> exn + json list" where
  \<comment> \<open>\<open>rows = data.get("rows", [])\<close>, \<open>len(rows)\<close> and the values \<open>for row in rows\<close> goes
      through: the elements of a list, the characters of a \<open>str\<close>, the keys of a \<open>dict\<close>\<close>
  "rows_of data =
     (case py_get data ''rows'' (JArr []) of
        Inl e \<Rightarrow> Inl e
      | Inr rows \<Rightarrow>
          (case rows of
             JArr xs \<Rightarrow> Inr xs
           | JStr s \<Rightarrow> Inr (map (\<lambda>c. JStr [c]) s)
           | JObj kvs \<Rightarrow> Inr (map (\<lambda>kv. JStr (fst kv)) kvs)
           | _ \<Rightarrow> Inl TypeError))"

definition api_request :: "string \<Rightarrow> world \<Rightarrow> (exn + json) \<times> world" where
  \<comment> \<open>\<open>requests.get\<close>, \<open>resp.raise_for_status()\<close>, \<open>resp.json()\<close>\<close>
  "api_request u w =
     (case http_get u w of
        (Inl e, w1) \<Rightarrow> (Inl e, w1)
      | (Inr r, w1) \<Rightarrow>
          (case json_body r of
             None \<Rightarrow> (Inl JSONDecodeError, w1)
           | Some data \<Rightarrow> (Inr data, w1)))"

definition blox_scrape ::
  "pylib \<Rightarrow> string \<Rightarrow> string \<Rightarrow> string \<Rightarrow> string list \<Rightarrow> string list \<Rightarrow> date \<Rightarrow> world \<Rightarrow>
   (exn + article list) \<times> world" where
  \<comment> \<open>\<open>scrape\<close> of keenesentinel.py and of reformer.py from the first log line on\<close>
  "blox_scrape lib site request_url base keys stops target_date w =
     (case api_request request_url (log_msg site INFO (isoformat target_date) w) of
        (Inl e, w1) \<Rightarrow> (Inr [], log_msg site ERROR request_url w1)
      | (Inr data, w1) \<Rightarrow>
          (case rows_of data of
             Inl e \<Rightarrow> (Inl e, w1)
           | Inr rows \<Rightarrow>
               blox_rows lib site base keys stops target_date rows
                 (log_msg site INFO (show_nat (length rows)) w1)))"

section \<open>The Keene Sentinel adapter (scrapers/keenesentinel.py)\<close>

definition keenesentinel_request :: string where
  \<comment> \<open>\<open>SEARCH_API_URL\<close> with \<open>params\<close> as \<open>requests\<close> encodes them\<close>
  "keenesentinel_request =
     ''https://www.keenesentinel.com/search/?f=json&t=article&c%5B%5D=news%2Flocal&l=100&sort=starttime&sd=desc''"

definition keenesentinel_scrape :: "pylib \<Rightarrow> date \<Rightarrow> world \<Rightarrow> (exn + article list) \<times> world"
  where
  "keenesentinel_scrape lib target_date w =
     blox_scrape lib ''keenesentinel'' keenesentinel_request ''https://www.keenesentinel.com''
       [''iso8601'', ''value'', ''iso'']
       [''copyright'', ''subscribe'', ''sign up'', ''print'', ''email''] target_date w"

section \<open>The Brattleboro Reformer adapter (scrapers/reformer.py)\<close>

definition reformer_request :: string where
  "reformer_request =
     ''https://www.reformer.com/search/?f=json&t=article&c%5B%5D=local-news&l=50&sort=starttime&sd=desc''"

definition reformer_scrape :: "pylib \<Rightarrow> date \<Rightarrow> world \<Rightarrow> (exn + article list) \<times> world" where
  \<comment> \<open>the cookie of the file does not contain \<open>PASTE_YOUR\<close>, so the first \<open>if\<close> is not
      taken\<close>
  "reformer_scrape lib target_date w =
     blox_scrape lib ''reformer'' reformer_request ''https://www.reformer.com''
       [''iso8601'', ''value'']
       [''copyright'', ''subscribe'', ''sign up'', ''print'', ''email'', ''click here'']
       target_date w"

section \<open>The driver (app.py, the Scrape Manually button)\<close>






section \<open>Auxiliary notions used in the proofs\<close>

definition month_table :: "(nat \<times> string) list" where
  \<comment> \<open>\<open>month_names\<close> as a table of (month, spelling)\<close>
  "month_table = [(1, ''Jan''), (1, ''January''), (2, ''Feb''), (2, ''February''), (3, ''Mar''),
     (3, ''March''), (4, ''Apr''), (4, ''April''), (5, ''May''), (6, ''Jun''), (6, ''June''),
     (7, ''Jul''), (7, ''July''), (8, ''Aug''), (8, ''August''), (9, ''Sep''), (9, ''Sept''),
     (9, ''September''), (10, ''Oct''), (10, ''October''), (11, ''Nov''), (11, ''November''),
     (12, ''Dec''), (12, ''December'')]"

definition fix_sept :: "string \<Rightarrow> string" where
  "fix_sept name = (if name = ''Sept'' then ''Sep'' else name)"

definition name_ok :: "nat \<times> string \<Rightarrow> bool" where
  \<comment> \<open>a spelling, after the Sept fix, is an abbreviated name of its month, or is longer than
      every abbreviation and a full name of its month\<close>
  "name_ok = (\<lambda>(m, name).
     list_all (\<lambda>c. \<not> isspace c) (fix_sept name) \<and>
     (lower (fix_sept name) \<in> set month_abbr \<and>
        index_of month_abbr (lower (fix_sept name)) + 1 = m \<or>
      list_all (\<lambda>n. length n < length (fix_sept name)) month_abbr \<and>
        lower (fix_sept name) \<in> set month_full \<and>
        index_of month_full (lower (fix_sept name)) + 1 = m))"

definition kept_paragraphs :: "article \<Rightarrow> string list" where
  \<comment> \<open>the paragraphs as they are written: stripped, the blank ones left out\<close>
  "kept_paragraphs a = filter (\<lambda>p. p \<noteq> []) (map strip (a_paragraphs a))"

definition head_text :: "string \<Rightarrow> article \<Rightarrow> string \<Rightarrow> string" where
  \<comment> \<open>the title line, a blank line, the Site line, the Published line when the article has
      a date, and the URL line without its newline\<close>
  "head_text t a site_slug =
     t @ ''\<newline>\<newline>Site: '' @ upper site_slug @ ''\<newline>'' @
     (case a_date a of Some d \<Rightarrow> ''Published: '' @ isoformat d @ ''\<newline>'' | None \<Rightarrow> []) @
     ''URL: '' @ a_url a"

definition claimed_text :: "string \<Rightarrow> article \<Rightarrow> string \<Rightarrow> string" where
  \<comment> \<open>The layout in the words of the specification: title line, blank line, Site line,
      Published line, URL line, blank line, then each paragraph followed by a blank
      line.\<close>
  "claimed_text t a site_slug =
     concat (map (\<lambda>l. l @ ''\<newline>'')
       ([t, '''', ''Site: '' @ upper site_slug] @
        (case a_date a of Some d \<Rightarrow> [''Published: '' @ isoformat d] | None \<Rightarrow> []) @
        [''URL: '' @ a_url a, ''''] @
        concat (map (\<lambda>p. [p, '''']) (a_paragraphs a))))"

definition no_linebreak :: "string \<Rightarrow> bool" where
  "no_linebreak s = list_all (\<lambda>c. \<not> is_linebreak c) s"

definition meta_line :: "string \<Rightarrow> bool" where
  \<comment> \<open>a line the reader takes for a Published or URL line\<close>
  "meta_line l =
     (startswith (lower (strip l)) ''published:'' \<or> startswith (lower (strip l)) ''url:'')"

definition shown_title :: "string \<Rightarrow> string" where
  \<comment> \<open>\<open>title or "Untitled"\<close> for a \<open>str\<close> title\<close>
  "shown_title t = (if t = [] then ''Untitled'' else t)"


definition first_free_name :: "archive \<Rightarrow> path \<Rightarrow> string \<Rightarrow> string \<Rightarrow> bool" where
  \<comment> \<open>\<open>n\<close> is the first name of the sequence \<open>stem.txt\<close>, \<open>stem (2).txt\<close>, \<open>stem (3).txt\<close>, ...
      that does not exist in directory \<open>dir\<close> of the archive\<close>
  "first_free_name fs dir stem n =
     (if \<not> path_exists fs (dir @ [stem @ ''.txt'']) then n = stem @ ''.txt''
      else \<exists>k \<ge> 2. n = numbered stem ''.txt'' k \<and> \<not> path_exists fs (dir @ [n]) \<and>
             (\<forall>j. 2 \<le> j \<and> j < k \<longrightarrow> path_exists fs (dir @ [numbered stem ''.txt'' j])))"







definition core :: "parse_state \<Rightarrow> string option \<times> string option \<times> string option" where
  \<comment> \<open>the title, the url and the published date the reader has found so far\<close>
  "core st = (m_title (ps_meta st), m_url (ps_meta st), m_published (ps_meta st))"

definition url_line :: "article \<Rightarrow> string" where
  \<comment> \<open>the URL line as it stands in the file: when no paragraph follows, the closing
      \<open>rstrip\<close> reaches it\<close>
  "url_line a =
     (if kept_paragraphs a = [] then ''URL:'' @ rstrip ('' '' @ a_url a) else ''URL: '' @ a_url a)"

definition written_lines :: "string \<Rightarrow> article \<Rightarrow> string \<Rightarrow> string list" where
  \<comment> \<open>the lines of the file: the header, then a blank line before each kept paragraph\<close>
  "written_lines t a site_slug =
     [t, '''', ''Site: '' @ upper site_slug] @
     (case a_date a of Some d \<Rightarrow> [''Published: '' @ isoformat d] | None \<Rightarrow> []) @
     [url_line a] @
     concat (map (\<lambda>p. ['''', p]) (kept_paragraphs a))"

definition write_then_parse :: "article \<Rightarrow> string \<Rightarrow> exn + article_metadata" where
  \<comment> \<open>the metadata the reader finds in the file the writer makes of an article\<close>
  "write_then_parse a site_slug =
     (case write_text_article a site_slug of
        Inl e \<Rightarrow> Inl e
      | Inr stored \<Rightarrow> Inr (fst (parse_article_file stored)))"

section \<open>Sample inputs\<close>

definition town_article :: article where
  "town_article =
     \<lparr>a_url = ''https://example.com/town-meeting'', a_title = JStr ''Town Meeting Update'',
      a_date = Some (Date 2025 9 5),
      a_paragraphs = [''First paragraph.'', ''   '', ''Second paragraph.'']\<rparr>"

definition colon_article :: article where
  "colon_article =
     \<lparr>a_url = ''https://example.com/town-meeting-2'', a_title = JStr ''Town Meeting: Update'',
      a_date = Some (Date 2025 9 5),
      a_paragraphs = [''The board met on Tuesday.'']\<rparr>"

definition offline :: world where
  \<comment> \<open>nothing requested, logged or stored yet, and every request fails\<close>
  "offline = \<lparr>net = (\<lambda>n u. Inl RequestException), requests = [], log_lines = [], files = []\<rparr>"


definition steady :: "world \<Rightarrow> bool" where
  \<comment> \<open>what a URL gives does not change during the run\<close>
  "steady w = (\<forall>n m u. net w n u = net w m u)"

definition dated_page :: "world \<Rightarrow> date \<Rightarrow> string \<Rightarrow> bool" where
  \<comment> \<open>the page at \<open>u\<close> can be fetched and the first date in its text is \<open>d\<close>\<close>
  "dated_page w d u =
     (case net w 0 u of
        Inl e \<Rightarrow> False
      | Inr r \<Rightarrow> text_date (page_text (html r)) = Inr (Some d))"

definition request_fails :: "world \<Rightarrow> string \<Rightarrow> bool" where
  \<comment> \<open>the next request, made for \<open>u\<close>, raises, or its body is not JSON\<close>
  "request_fails w u =
     (case net w (length (requests w)) u of
        Inl e \<Rightarrow> True
      | Inr r \<Rightarrow> json_body r = None)"




section \<open>Sample sites\<close>

definition sample_lib :: pylib where
  \<comment> \<open>A library for the sample runs, right on what they hand it: a base without a path and
      a reference that is an absolute path are joined by writing one after the other.\<close>
  "sample_lib =
     \<lparr>urljoin = (\<lambda>base u. Inr (base @ u)),
      str_of = (\<lambda>v. case v of JStr s \<Rightarrow> s | _ \<Rightarrow> []),
      markup_paragraphs = (\<lambda>s. [s]),
      odd_markup = (\<lambda>v. Inl TypeError)\<rparr>"

definition blank_page :: soup where
  "blank_page =
     \<lparr>anchors = [], heading_anchors = None, og_title = None, twitter_title = None,
      h1_text = None, page_text = [], p_texts = [], section_meta = None,
      category_link = None\<rparr>"

definition listing_urls :: "string list" where
  "listing_urls = [wmur_LOCAL_NEWS_URL, wcax_NEWS_URL, vtdigger_BASE_URL, mykeenenow_NEWS_URL]"

definition listing_page :: soup where
  \<comment> \<open>a front page with one link of the kind each of the four HTML adapters follows\<close>
  "listing_page =
     blank_page\<lparr>anchors :=
       [''/article/road-closed-12345'', ''/2025/09/05/road-closed/'', ''/news/road-closed/'']\<rparr>"

definition bare_article :: soup where
  \<comment> \<open>an article page with a headline and a date line, and no \<open>p\<close> element\<close>
  "bare_article =
     blank_page\<lparr>h1_text := Some ''Road closed'',
                page_text := ''Road closed September 5, 2025''\<rparr>"

definition bare_site :: world where
  \<comment> \<open>every listing URL gives the front page, every other URL the bare article\<close>
  "bare_site =
     \<lparr>net = (\<lambda>n u. Inr \<lparr>html = (if u \<in> set listing_urls then listing_page else bare_article),
                          json_body = None\<rparr>),
      requests = [], log_lines = [], files = []\<rparr>"

definition edited_site :: world where
  \<comment> \<open>the article page shows September 5 up to the second request of the run, and
      September 6 from the third on\<close>
  "edited_site =
     \<lparr>net = (\<lambda>n u. Inr \<lparr>html =
                (if u \<in> set listing_urls then listing_page
                 else if n < 2
                 then blank_page\<lparr>h1_text := Some ''Road closed'',
                        page_text := ''Road closed September 5, 2025 The road is closed.'',
                        p_texts := [''The road is closed.'']\<rparr>
                 else blank_page\<lparr>h1_text := Some ''Road closed'',
                        page_text := ''Road closed September 6, 2025 The road is open again.'',
                        p_texts := [''The road is open again.'']\<rparr>),
              json_body = None\<rparr>),
      requests = [], log_lines = [], files = []\<rparr>"

definition crowded_site :: world where
  \<comment> \<open>a front page with 61 news links; none of the pages behind them carries a date\<close>
  "crowded_site =
     \<lparr>net = (\<lambda>n u. Inr \<lparr>html =
                (if u = mykeenenow_NEWS_URL
                 then blank_page\<lparr>anchors := map (\<lambda>k. ''/news/'' @ show_nat k) [1..<62]\<rparr>
                 else blank_page),
              json_body = None\<rparr>),
      requests = [], log_lines = [], files = []\<rparr>"

definition array_api :: world where
  \<comment> \<open>the search API answers with a JSON array instead of an object\<close>
  "array_api =
     \<lparr>net = (\<lambda>n u. Inr \<lparr>html = blank_page, json_body = Some (JArr [])\<rparr>),
      requests = [], log_lines = [], files = []\<rparr>"

definition null_rows_api :: world where
  \<comment> \<open>the search API answers with an object whose \<open>rows\<close> is \<open>null\<close>\<close>
  "null_rows_api =
     \<lparr>net = (\<lambda>n u. Inr \<lparr>html = blank_page, json_body = Some (JObj [(''rows'', JNull)])\<rparr>),
      requests = [], log_lines = [], files = []\<rparr>"


section \<open>Facts about strings\<close>

lemma rstrip_append_rest: "rstrip s @ rev (takeWhile isspace (rev s)) = s"
proof -
  have "rev (takeWhile isspace (rev s) @ dropWhile isspace (rev s)) = s"
    by simp
  then show ?thesis
    unfolding rstrip_def by (simp only: rev_append)
qed

lemma prefix_rstrip: "prefix (rstrip s) s"
  by (metis prefixI rstrip_append_rest)

lemma suffix_lstrip: "suffix (lstrip s) s"
  unfolding lstrip_def by (metis suffixI takeWhile_dropWhile_id)

lemma rstrip_last: "rstrip s \<noteq> [] \<Longrightarrow> \<not> isspace (last (rstrip s))"
  unfolding rstrip_def by (simp add: last_rev hd_dropWhile)

lemma lstrip_hd: "lstrip s \<noteq> [] \<Longrightarrow> \<not> isspace (hd (lstrip s))"
  unfolding lstrip_def by (simp add: hd_dropWhile)

lemma lstrip_last: "lstrip s \<noteq> [] \<Longrightarrow> last (lstrip s) = last s"
  unfolding lstrip_def by (metis last_appendR takeWhile_dropWhile_id)

lemma rstrip_hd: "rstrip s \<noteq> [] \<Longrightarrow> hd (rstrip s) = hd s"
  by (metis hd_append2 rstrip_append_rest)

lemma rstrip_nonempty: "c \<in> set s \<Longrightarrow> \<not> isspace c \<Longrightarrow> rstrip s \<noteq> []"
  unfolding rstrip_def by (auto simp: dropWhile_eq_Nil_conv)

lemma trimmed_strip: "trimmed (strip s)"
proof (cases "strip s = []")
  case True
  then show ?thesis by (simp add: trimmed_def)
next
  case False
  then have ne: "rstrip s \<noteq> []"
    unfolding strip_def lstrip_def by auto
  have "last (strip s) = last (rstrip s)"
    using False unfolding strip_def by (rule lstrip_last)
  with False ne show ?thesis
    unfolding trimmed_def using lstrip_hd [of "rstrip s"] rstrip_last [of s]
    by (simp add: strip_def)
qed

lemma single_spaced_tl: "single_spaced (c # s) \<Longrightarrow> single_spaced s"
  by (cases s) (auto split: if_splits)

lemma single_spaced_suffix: "suffix t s \<Longrightarrow> single_spaced s \<Longrightarrow> single_spaced t"
proof (induction s)
  case Nil
  then show ?case by simp
next
  case (Cons c s)
  then show ?case
    by (auto simp: suffix_Cons dest: single_spaced_tl)
qed

lemma single_spaced_prefix: "prefix t s \<Longrightarrow> single_spaced s \<Longrightarrow> single_spaced t"
proof (induction s arbitrary: t rule: single_spaced.induct)
  case 1
  then show ?case by simp
next
  case (2 c)
  then show ?case by (cases t) (auto simp: prefix_Cons)
next
  case (3 c d s)
  show ?case
  proof (cases t)
    case Nil
    then show ?thesis by simp
  next
    case (Cons a t')
    with "3.prems" have a: "a = c" and p: "prefix t' (d # s)"
      by auto
    from "3.prems" have ss: "single_spaced (d # s)"
      by simp
    from "3.IH" [OF p ss] have ih: "single_spaced t'" .
    show ?thesis
    proof (cases t')
      case Nil
      with Cons a "3.prems" show ?thesis by (auto split: if_splits)
    next
      case (Cons b t'')
      with p have "b = d" by auto
      with Cons \<open>t = a # t'\<close> a ih "3.prems" show ?thesis
        by (auto split: if_splits)
    qed
  qed
qed

lemma collapse_ws_shape:
  "single_spaced (collapse_ws b s) \<and>
   (b \<longrightarrow> collapse_ws b s = [] \<or> \<not> isspace (hd (collapse_ws b s)))"
proof (induction s arbitrary: b)
  case Nil
  then show ?case by simp
next
  case (Cons c s)
  show ?case
  proof (cases "isspace c")
    case True
    note sp = this
    from Cons [of True] have ih: "single_spaced (collapse_ws True s)"
      and hd: "collapse_ws True s = [] \<or> \<not> isspace (hd (collapse_ws True s))"
      by auto
    show ?thesis
    proof (cases b)
      case True
      with sp ih hd show ?thesis by simp
    next
      case False
      have "single_spaced (CHR '' '' # collapse_ws True s)"
        using ih hd by (cases "collapse_ws True s") (auto simp: isspace_def whitespace_chars_def)
      with sp False show ?thesis by simp
    qed
  next
    case False
    from Cons [of False] have ih: "single_spaced (collapse_ws False s)"
      by auto
    have "single_spaced (c # collapse_ws False s)"
      using ih False by (cases "collapse_ws False s") auto
    with False show ?thesis by simp
  qed
qed

lemma single_spaced_collapse_ws: "single_spaced (collapse_ws False s)"
  using collapse_ws_shape [of False s] by simp

lemma set_collapse_ws: "set (collapse_ws b s) \<subseteq> insert (CHR '' '') (set s)"
  by (induction s arbitrary: b) auto

lemma set_strip: "set (strip s) \<subseteq> set s"
proof -
  have "set (lstrip (rstrip s)) \<subseteq> set (rstrip s)"
    using suffix_lstrip set_mono_suffix by blast
  moreover have "set (rstrip s) \<subseteq> set s"
    using prefix_rstrip set_mono_prefix by blast
  ultimately show ?thesis
    unfolding strip_def by blast
qed

lemma single_spaced_strip: "single_spaced s \<Longrightarrow> single_spaced (strip s)"
  unfolding strip_def
  using single_spaced_prefix [OF prefix_rstrip] single_spaced_suffix [OF suffix_lstrip]
  by blast

lemma legal_cleaned:
  "set (strip (collapse_ws False (strip_illegal t))) \<inter> set illegal_chars = {}"
proof -
  have "set (strip (collapse_ws False (strip_illegal t)))
          \<subseteq> insert (CHR '' '') (set (strip_illegal t))"
    using set_strip set_collapse_ws by blast
  moreover have "set (strip_illegal t) \<inter> set illegal_chars = {}"
    unfolding strip_illegal_def by auto
  moreover have "CHR '' '' \<notin> set illegal_chars"
    by (simp add: illegal_chars_def)
  ultimately show ?thesis by blast
qed

lemma safe_stem_truncate:
  assumes ne: "s \<noteq> []" and legal: "set s \<inter> set illegal_chars = {}"
    and ss: "single_spaced s" and tr: "trimmed s"
  shows "safe_stem (if length s > 150 then rstrip (take 150 s) else s)"
proof (cases "length s > 150")
  case False
  with assms show ?thesis by (simp add: safe_stem_def)
next
  case True
  let ?t = "rstrip (take 150 s)"
  from ne tr have h: "\<not> isspace (hd s)"
    by (simp add: trimmed_def)
  from ne True have "hd s \<in> set (take 150 s)"
    by (cases s) auto
  then have tne: "?t \<noteq> []"
    using h by (rule rstrip_nonempty)
  have pre: "prefix ?t s"
    using prefix_rstrip [of "take 150 s"] take_is_prefix [of 150 s] prefix_order.order_trans
    by blast
  have len: "length ?t \<le> 150"
    using prefix_length_le [OF prefix_rstrip [of "take 150 s"]] by simp
  have "hd ?t = hd s"
    using pre tne by (metis hd_append2 prefix_def)
  with h tne rstrip_last [of "take 150 s"] have "trimmed ?t"
    by (simp add: trimmed_def)
  moreover have "set ?t \<inter> set illegal_chars = {}"
    using legal set_mono_prefix [OF pre] by blast
  moreover have "single_spaced ?t"
    using single_spaced_prefix [OF pre ss] .
  ultimately show ?thesis
    using True tne len by (simp add: safe_stem_def)
qed

lemma safe_stem_untitled: "safe_stem ''untitled''"
  by (simp add: safe_stem_def illegal_chars_def trimmed_def isspace_def whitespace_chars_def)

lemma sanitized:
  "\<exists>stem. title_to_filename t = stem @ ''.txt'' \<and> safe_stem stem \<and>
     (if t = [] \<or> strip (collapse_ws False (strip_illegal t)) = []
      then stem = ''untitled'' else True)"
proof (cases "t = []")
  case True
  then show ?thesis
    using safe_stem_untitled by (simp add: title_to_filename_def)
next
  case False
  let ?c = "strip (collapse_ws False (strip_illegal t))"
  show ?thesis
  proof (cases "?c = []")
    case True
    with False safe_stem_untitled show ?thesis
      by (simp add: title_to_filename_def)
  next
    case ne: False
    have "safe_stem (if length ?c > 150 then rstrip (take 150 ?c) else ?c)"
      using ne legal_cleaned single_spaced_strip [OF single_spaced_collapse_ws] trimmed_strip
      by (rule safe_stem_truncate)
    with False ne show ?thesis
      by (auto simp: title_to_filename_def Let_def split: if_splits)
  qed
qed


section \<open>Facts about digits and the date formats\<close>

lemma digit_val_le: "digit_val c \<le> 10"
proof -
  have "length (takeWhile (\<lambda>d. d \<noteq> c) digit_chars) \<le> length digit_chars"
    by (rule length_takeWhile_le)
  then show ?thesis by (simp add: digit_val_def digit_chars_def)
qed

lemma four_digits:
  assumes "y \<le> 9999"
  shows "((y div 1000 mod 10 * 10 + y div 100 mod 10) * 10 + y div 10 mod 10) * 10 + y mod 10
    = (y::nat)"
proof -
  define a where "a = y div 10"
  define b where "b = a div 10"
  define c where "c = b div 10"
  have c: "c mod 10 = c"
    using assms by (simp add: a_def b_def c_def div_mult2_eq)
  have "y div 100 = b" "y div 1000 = c"
    by (simp_all add: a_def b_def c_def div_mult2_eq)
  moreover have "c * 10 + b mod 10 = b" by (simp add: c_def)
  moreover have "b * 10 + a mod 10 = a" by (simp add: b_def)
  moreover have "a * 10 + y mod 10 = y" by (simp add: a_def)
  ultimately show ?thesis
    using c by (simp add: a_def [symmetric])
qed

lemma year_then_pad4: "y \<le> 9999 \<Longrightarrow> year_then (pad4 y @ rest) = Some (y, rest)"
  using four_digits [of y]
  by (simp add: year_then_def pad4_def digit_of_any digits_val_def)

lemma ws_plus_then_space:
  "\<not> isspace c \<Longrightarrow> ws_plus_then k (CHR '' '' # c # s) = k (c # s)"
  by (simp add: ws_plus_then_def isspace_def whitespace_chars_def)

lemma nonzero_digit_of: "n mod 10 \<noteq> 0 \<Longrightarrow> nonzero_digit (digit_of n)"
  using digit_cases [of "n mod 10"]
  by (auto simp: digit_of_def digit_chars_def nonzero_digit_def)

lemma digit_of_small: "digit_of 0 = CHR ''0''" "digit_of (Suc 0) = CHR ''1''"
  "digit_of 2 = CHR ''2''" "digit_of 3 = CHR ''3''"
  by (simp_all add: digit_of_def digit_chars_def)

lemma show_nat_two: "10 \<le> d \<Longrightarrow> d < 100 \<Longrightarrow> show_nat d = [digit_of (d div 10), digit_of d]"
  by (subst show_nat.simps, simp, subst show_nat.simps, simp)

lemma show_nat_one: "d < 10 \<Longrightarrow> show_nat d = [digit_of d]"
  by (subst show_nat.simps) simp

lemma not_digit_comma: "\<not> isdigit (CHR '','')" "\<not> nonzero_digit (CHR '','')"
  by (simp_all add: isdigit_def digit_chars_def nonzero_digit_def)

lemma show_nat_day:
  assumes "1 \<le> d" and "d \<le> 31"
  shows "\<exists>more. day_alternatives (show_nat d @ CHR '','' # rest) = (d, CHR '','' # rest) # more"
proof (cases "d < 10")
  case True
  with assms have nz: "nonzero_digit (digit_of d)"
    by (intro nonzero_digit_of) simp
  from True have dv: "digit_val (digit_of d) = d"
    by (simp add: digit_of_any)
  show ?thesis
    using nz dv True
    by (simp add: show_nat_one day_alternatives_def not_digit_comma)
next
  case False
  with assms have two: "show_nat d = [digit_of (d div 10), digit_of d]"
    by (intro show_nat_two) simp_all
  have val: "digits_val [digit_of (d div 10), digit_of d] = d"
    using assms by (simp add: digits_val_def digit_of_any)
  from False assms consider "d div 10 = 1" | "d div 10 = 2" | "d div 10 = 3"
    by (cases "d div 10 = 1"; cases "d div 10 = 2"; cases "d div 10 = 3") linarith+
  then show ?thesis
  proof cases
    case 1
    then show ?thesis
      using val by (simp add: two day_alternatives_def digit_of_small digit_of_any)
  next
    case 2
    then show ?thesis
      using val by (simp add: two day_alternatives_def digit_of_small digit_of_any)
  next
    case 3
    have "d = 10 * (d div 10) + d mod 10"
      by simp
    with 3 assms have "d mod 10 = 0 \<or> d mod 10 = 1"
      by linarith
    then have "digit_of d = CHR ''0'' \<or> digit_of d = CHR ''1''"
      by (auto simp: digit_of_def digit_chars_def)
    with 3 show ?thesis
      using val by (auto simp: two day_alternatives_def digit_of_small)
  qed
qed

lemma set_show_nat: "set (show_nat n) \<subseteq> set digit_chars"
proof (induction n rule: show_nat.induct)
  case (1 n)
  have "digit_of n \<in> set digit_chars"
    using digit_of_any(1) [of n] by (simp add: isdigit_def)
  with 1 show ?case
    by (subst show_nat.simps) auto
qed

lemma show_nat_nonempty: "show_nat n \<noteq> []"
  by (subst show_nat.simps) simp

lemma digits_not_space: "c \<in> set digit_chars \<Longrightarrow> \<not> isspace c \<and> c \<noteq> CHR ''S''"
  by (auto simp: digit_chars_def isspace_def whitespace_chars_def)

lemma replace_absent: "old \<noteq> [] \<Longrightarrow> hd old \<notin> set s \<Longrightarrow> replace old new s = s"
proof (induction s)
  case Nil
  then show ?case by simp
next
  case (Cons c s)
  then have "\<not> prefix old (c # s)"
    by (cases old) auto
  with Cons show ?case by simp
qed

lemma date_tail_ok:
  assumes "1 \<le> d" and "d \<le> 31" and "y \<le> 9999"
  shows "date_tail (CHR '' '' # show_nat d @ '', '' @ pad4 y) = Some (d, y, [])"
proof -
  obtain c s where cs: "show_nat d = c # s"
    using show_nat_nonempty [of d] by (cases "show_nat d") auto
  then have "c \<in> set digit_chars"
    using set_show_nat [of d] by auto
  then have c: "\<not> isspace c"
    using digits_not_space by blast
  obtain more where alts:
    "day_alternatives (c # s @ CHR '','' # CHR '' '' # pad4 y) =
       (d, CHR '','' # CHR '' '' # pad4 y) # more"
    using show_nat_day [OF assms(1,2), of "CHR '' '' # pad4 y"] cs by auto
  have y: "year_then (pad4 y) = Some (y, [])"
    using year_then_pad4 [OF assms(3), of "[]"] by simp
  have p: "ws_plus_then k (CHR '' '' # pad4 y) = k (pad4 y)"
    for k :: "string \<Rightarrow> (nat \<times> nat \<times> string) option"
    by (simp add: pad4_def ws_plus_then_space digit_of_any)
  show ?thesis
    unfolding date_tail_def cs
    by (simp add: ws_plus_then_space [OF c] alts p y)
qed

lemma tail_no_S: "CHR ''S'' \<notin> set (show_nat d @ '', '' @ pad4 y)"
proof -
  have "CHR ''S'' \<notin> set (show_nat d)"
    using set_show_nat [of d] digits_not_space by blast
  moreover have "CHR ''S'' \<notin> set (pad4 y)"
    using digit_of_any(4) by (auto simp: pad4_def dest: sym)
  ultimately show ?thesis by simp
qed

lemma month_cases:
  assumes "1 \<le> m" and "m \<le> 12"
  shows "m \<in> {1, 2, 3, 4, 5, 6, 7, 8, 9, 10, 11, 12::nat}"
proof -
  consider "m \<le> 3" | "4 \<le> m" "m \<le> 6" | "7 \<le> m" "m \<le> 9" | "10 \<le> m"
    by linarith
  then show ?thesis
  proof cases
    case 1
    with assms have "m = 1 \<or> m = 2 \<or> m = 3" by linarith
    then show ?thesis by auto
  next
    case 2
    then have "m = 4 \<or> m = 5 \<or> m = 6" by linarith
    then show ?thesis by auto
  next
    case 3
    then have "m = 7 \<or> m = 8 \<or> m = 9" by linarith
    then show ?thesis by auto
  next
    case 4
    with assms have "m = 10 \<or> m = 11 \<or> m = 12" by linarith
    then show ?thesis by auto
  qed
qed

lemma first_some_unique:
  "x0 \<in> set xs \<Longrightarrow> k x0 = Some r \<Longrightarrow> (\<forall>x \<in> set xs. x \<noteq> x0 \<longrightarrow> k x = None) \<Longrightarrow>
   first_some k xs = Some r"
  by (induction xs) (auto split: option.splits)

lemma first_some_none: "(\<forall>x \<in> set xs. k x = None) \<Longrightarrow> first_some k xs = None"
  by (induction xs) auto

lemma first_some_SomeD: "first_some k xs = Some r \<Longrightarrow> \<exists>x \<in> set xs. k x = Some r"
  by (induction xs) (auto split: option.splits)

lemma ws_star_then_SomeD: "ws_star_then k s = Some r \<Longrightarrow> \<exists>s'. k s' = Some r"
  by (induction s) (auto split: option.splits if_splits)

lemma ws_plus_then_SomeD: "ws_plus_then k s = Some r \<Longrightarrow> \<exists>s'. k s' = Some r"
  by (auto simp: ws_plus_then_def split: list.splits if_splits dest: ws_star_then_SomeD)

lemma date_tail_not_space: "\<not> isspace c \<Longrightarrow> date_tail (c # s) = None"
  by (simp add: date_tail_def ws_plus_then_def)

lemma set_regex_order: "set (regex_order names) = set names"
  by (simp add: regex_order_def)

lemma lower_space: "lower_char (CHR '' '') = CHR '' ''"
  by (simp add: lower_char_def ascii_upper_def ascii_lower_def latin1_upper_def latin1_lower_def)

lemma strptime_match_name:
  assumes names: "\<forall>n \<in> set names. CHR '' '' \<notin> set n"
    and mem: "lower name \<in> set names"
    and name: "\<forall>c \<in> set name. \<not> isspace c"
    and tail: "date_tail (CHR '' '' # T) = Some (d, y, rest)"
  shows "strptime_match names (name @ CHR '' '' # T) = Some (lower name, d, y, rest)"
  unfolding strptime_match_def
proof (rule first_some_unique [where ?x0.0 = "lower name"])
  show "lower name \<in> set (regex_order names)"
    using mem by (simp add: set_regex_order)
  show "(if lower (take (length (lower name)) (name @ CHR '' '' # T)) = lower name
         then case date_tail (drop (length (lower name)) (name @ CHR '' '' # T)) of
                None \<Rightarrow> None | Some (d, y, rest) \<Rightarrow> Some (lower name, d, y, rest)
         else None) = Some (lower name, d, y, rest)"
    using tail by (simp add: lower_def)
  show "\<forall>n \<in> set (regex_order names). n \<noteq> lower name \<longrightarrow>
     (if lower (take (length n) (name @ CHR '' '' # T)) = n
      then case date_tail (drop (length n) (name @ CHR '' '' # T)) of
             None \<Rightarrow> None | Some (d, y, rest) \<Rightarrow> Some (n, d, y, rest)
      else None) = None"
  proof (intro ballI impI)
    fix n
    assume n: "n \<in> set (regex_order names)" and ne: "n \<noteq> lower name"
    let ?s = "name @ CHR '' '' # T"
    show "(if lower (take (length n) ?s) = n
      then case date_tail (drop (length n) ?s) of
             None \<Rightarrow> None | Some (d, y, rest) \<Rightarrow> Some (n, d, y, rest)
      else None) = None"
    proof (cases "lower (take (length n) ?s) = n")
      case False
      then show ?thesis by simp
    next
      case True
      have "length n < length name"
      proof (rule ccontr)
        assume "\<not> length n < length name"
        then have ge: "length name \<le> length n" by simp
        show False
        proof (cases "length n = length name")
          case True
          with \<open>lower (take (length n) ?s) = n\<close> ne show False by simp
        next
          case False
          with ge have gt: "length name < length n" by simp
          then have "take (length n) ?s ! length name = CHR '' ''"
            by (simp add: nth_append)
          moreover have "length name < length (take (length n) ?s)"
            using gt by simp
          ultimately have "lower (take (length n) ?s) ! length name = CHR '' ''"
            unfolding lower_def by (simp only: nth_map lower_space)
          with True have "n ! length name = CHR '' ''" by simp
          with gt have "CHR '' '' \<in> set n"
            by (metis nth_mem)
          with names n show False
            by (simp add: set_regex_order)
        qed
      qed
      then have "drop (length n) ?s = (name ! length n) # drop (Suc (length n)) name @ CHR '' '' # T"
        by (simp add: Cons_nth_drop_Suc)
      moreover have "\<not> isspace (name ! length n)"
        using name \<open>length n < length name\<close> by simp
      ultimately show ?thesis
        by (simp add: date_tail_not_space)
    qed
  qed
qed

lemma strptime_match_short:
  assumes len: "\<forall>n \<in> set names. length n < length name"
    and name: "\<forall>c \<in> set name. \<not> isspace c"
  shows "strptime_match names (name @ CHR '' '' # T) = None"
  unfolding strptime_match_def
proof (rule first_some_none, intro ballI)
  fix n
  assume "n \<in> set (regex_order names)"
  with len have l: "length n < length name"
    by (simp add: set_regex_order)
  then have "drop (length n) (name @ CHR '' '' # T) =
      (name ! length n) # drop (Suc (length n)) name @ CHR '' '' # T"
    by (simp add: Cons_nth_drop_Suc)
  moreover have "\<not> isspace (name ! length n)"
    using name l by simp
  ultimately show "(if lower (take (length n) (name @ CHR '' '' # T)) = n
      then case date_tail (drop (length n) (name @ CHR '' '' # T)) of
             None \<Rightarrow> None | Some (d, y, rest) \<Rightarrow> Some (n, d, y, rest)
      else None) = None"
    by (simp add: date_tail_not_space)
qed


lemma month_table_ok: "list_all name_ok month_table"
  by code_simp

lemma month_names_table:
  assumes "1 \<le> m" and "m \<le> 12" and "name \<in> set (month_names m)"
  shows "(m, name) \<in> set month_table"
proof -
  from month_cases [OF assms(1,2)] have "m \<in> set [1, 2, 3, 4, 5, 6, 7, 8, 9, 10, 11, 12]"
    by simp
  then show ?thesis
    using assms(3)
    apply (simp only: set_simps)
    apply (elim insertE emptyE)
    apply (simp_all add: month_names_def month_table_def)
    done
qed

lemma sept_fixed_name:
  assumes "(m, name) \<in> set month_table" and noS: "CHR ''S'' \<notin> set T"
  shows "sept_fixed (name @ CHR '' '' # T) = fix_sept name @ CHR '' '' # T"
proof -
  have r: "replace (CHR ''S'' # old) new T = T" for old new
    using noS by (intro replace_absent) simp_all
  from assms(1) show ?thesis
    unfolding month_table_def
    apply simp
    apply (elim disjE conjE)
    apply (simp_all add: sept_fixed_def r fix_sept_def)
    done
qed

lemma days_in_month_le: "days_in_month y m \<le> 31"
  by (simp add: days_in_month_def)

lemma date_new_ok:
  assumes "1 \<le> y" "y \<le> 9999" "1 \<le> m" "m \<le> 12" "1 \<le> d" "d \<le> days_in_month y m"
  shows "date_new (int y) (int m) (int d) = Inr (Date y m d)"
  using assms days_in_month_le [of y m] by (simp add: date_new_def fits_c_int_def)

lemma no_space_in_names:
  "\<forall>n \<in> set month_abbr. CHR '' '' \<notin> set n" "\<forall>n \<in> set month_full. CHR '' '' \<notin> set n"
  by (simp_all add: month_abbr_def month_full_def)

lemma parse_month:
  assumes m: "1 \<le> m" "m \<le> 12" and name: "name \<in> set (month_names m)"
    and y: "1 \<le> y" "y \<le> 9999" and d: "1 \<le> d" "d \<le> days_in_month y m"
  shows "parse_us_date_string (name @ '' '' @ show_nat d @ '', '' @ pad4 y) = Inr (Some (Date y m d))"
proof -
  let ?T = "show_nat d @ '', '' @ pad4 y"
  let ?n = "fix_sept name"
  have d31: "d \<le> 31"
    using d days_in_month_le [of y m] by simp
  have tail: "date_tail (CHR '' '' # ?T) = Some (d, y, [])"
    using date_tail_ok [OF d(1) d31 y(2)] .
  have tab: "(m, name) \<in> set month_table"
    using m name by (rule month_names_table)
  have fixed: "sept_fixed (name @ CHR '' '' # ?T) = ?n @ CHR '' '' # ?T"
    using tab tail_no_S by (rule sept_fixed_name)
  from month_table_ok tab have ok: "name_ok (m, name)"
    by (simp add: list_all_iff)
  then have nsp: "\<forall>c \<in> set ?n. \<not> isspace c"
    by (simp add: name_ok_def list_all_iff)
  have dn: "date_new (int y) (int m) (int d) = Inr (Date y m d)"
    using y m d by (intro date_new_ok)
  from ok consider
    (abbr) "lower ?n \<in> set month_abbr" "index_of month_abbr (lower ?n) + 1 = m"
    | (full) "\<forall>n \<in> set month_abbr. length n < length ?n" "lower ?n \<in> set month_full"
      "index_of month_full (lower ?n) + 1 = m"
    by (auto simp: name_ok_def list_all_iff)
  then have "try_formats [month_abbr, month_full] (?n @ CHR '' '' # ?T) = Inr (Some (Date y m d))"
  proof cases
    case abbr
    have "strptime_match month_abbr (?n @ CHR '' '' # ?T) = Some (lower ?n, d, y, [])"
      using no_space_in_names(1) abbr(1) nsp tail by (rule strptime_match_name)
    then have "strptime month_abbr (?n @ CHR '' '' # ?T) = Inr (Date y m d)"
      using abbr(2) dn by (simp add: strptime_def)
    then show ?thesis by simp
  next
    case full
    have "strptime_match month_abbr (?n @ CHR '' '' # ?T) = None"
      using full(1) nsp by (rule strptime_match_short)
    then have 1: "strptime month_abbr (?n @ CHR '' '' # ?T) = Inl ValueError"
      by (simp add: strptime_def)
    have "strptime_match month_full (?n @ CHR '' '' # ?T) = Some (lower ?n, d, y, [])"
      using no_space_in_names(2) full(2) nsp tail by (rule strptime_match_name)
    then have "strptime month_full (?n @ CHR '' '' # ?T) = Inr (Date y m d)"
      using full(3) dn by (simp add: strptime_def)
    with 1 show ?thesis by simp
  qed
  with fixed show ?thesis
    by (simp add: parse_us_date_string_def)
qed

lemma four_chars: "4 \<le> length s \<Longrightarrow> \<exists>a b c d r. s = a # b # c # d # r"
  by (auto simp: numeral_eq_Suc Suc_le_length_iff)

lemma year_then_bound: "year_then s = Some (y, rest) \<Longrightarrow> y \<le> 11110"
proof -
  assume a: "year_then s = Some (y, rest)"
  then have "4 \<le> length s"
    by (simp add: year_then_def split: if_splits)
  then obtain a b c d r where s: "s = a # b # c # d # r"
    using four_chars by blast
  from a s have "y = digits_val [a, b, c, d]"
    by (simp add: year_then_def split: if_splits)
  then show ?thesis
    using digit_val_le [of a] digit_val_le [of b] digit_val_le [of c] digit_val_le [of d]
    by (simp add: digits_val_def)
qed

lemma day_alternatives_bound: "(d, r) \<in> set (day_alternatives s) \<Longrightarrow> d \<le> 110"
proof -
  have two: "digits_val [a, b] \<le> 110" for a b
    using digit_val_le [of a] digit_val_le [of b] by (simp add: digits_val_def)
  have one: "digit_val a \<le> 110" for a
    using digit_val_le [of a] by simp
  assume "(d, r) \<in> set (day_alternatives s)"
  then show ?thesis
    using two one
    by (auto simp: day_alternatives_def split: list.splits if_splits)
qed

lemma date_tail_bound:
  assumes "date_tail s = Some (d, y, rest)"
  shows "d \<le> 110 \<and> y \<le> 11110"
proof -
  from assms obtain s1 where
    "first_some
          (\<lambda>(d, s2). case s2 of
               [] \<Rightarrow> None
             | c # s3 \<Rightarrow>
                 if c = CHR '','' then
                   ws_plus_then
                     (\<lambda>s4. case year_then s4 of
                              Some (y, rest) \<Rightarrow> Some (d, y, rest)
                            | None \<Rightarrow> None) s3
                 else None)
          (day_alternatives s1) = Some (d, y, rest)"
    unfolding date_tail_def by (blast dest: ws_plus_then_SomeD)
  then obtain d' s2 where in_alts: "(d', s2) \<in> set (day_alternatives s1)"
    and k: "(case s2 of
               [] \<Rightarrow> None
             | c # s3 \<Rightarrow>
                 if c = CHR '','' then
                   ws_plus_then
                     (\<lambda>s4. case year_then s4 of
                              Some (y, rest) \<Rightarrow> Some (d', y, rest)
                            | None \<Rightarrow> None) s3
                 else None) = Some (d, y, rest)"
    by (auto dest!: first_some_SomeD)
  from k obtain s3 where
    "ws_plus_then (\<lambda>s4. case year_then s4 of Some (y, rest) \<Rightarrow> Some (d', y, rest) | None \<Rightarrow> None) s3
       = Some (d, y, rest)"
    by (auto split: list.splits if_splits)
  then obtain s4 where
    "(case year_then s4 of Some (y, rest) \<Rightarrow> Some (d', y, rest) | None \<Rightarrow> None) = Some (d, y, rest)"
    by (blast dest: ws_plus_then_SomeD)
  then have "d' = d" and "year_then s4 = Some (y, rest)"
    by (auto split: option.splits)
  with in_alts show ?thesis
    using day_alternatives_bound year_then_bound by blast
qed

lemma strptime_raises_only_ValueError:
  assumes "length names \<le> 12" and "strptime names s = Inl e"
  shows "e = ValueError"
proof (cases "strptime_match names s")
  case None
  with assms(2) show ?thesis by (simp add: strptime_def)
next
  case (Some r)
  obtain n d y rest where r: "r = (n, d, y, rest)"
    by (cases r) auto
  from Some r have "date_tail (drop (length n) s) = Some (d, y, rest)"
    unfolding strptime_match_def
    by (auto dest!: first_some_SomeD split: if_splits option.splits)
  then have b: "d \<le> 110" "y \<le> 11110"
    using date_tail_bound by blast+
  have "index_of names n \<le> length names"
    unfolding index_of_def by (rule length_takeWhile_le)
  with assms(1) have i: "index_of names n + 1 \<le> 13" by simp
  from assms(2) Some r b i show ?thesis
    by (auto simp: strptime_def date_new_def fits_c_int_def split: if_splits)
qed

lemma parse_never_raises: "\<exists>r. parse_us_date_string s = Inr r"
proof -
  have a: "strptime month_abbr t = Inl e \<Longrightarrow> e = ValueError" for t e
    by (rule strptime_raises_only_ValueError) (simp_all add: month_abbr_def)
  have f: "strptime month_full t = Inl e \<Longrightarrow> e = ValueError" for t e
    by (rule strptime_raises_only_ValueError) (simp_all add: month_full_def)
  show ?thesis
    unfolding parse_us_date_string_def
    by (auto split: sum.splits dest: a f)
qed

lemma parse_unaccepted: "\<not> accepted_format s \<Longrightarrow> parse_us_date_string s = Inr None"
  by (auto simp: accepted_format_def parse_us_date_string_def strptime_def split: option.splits)


section \<open>Facts about the text of an article\<close>

lemma join_Cons: "join sep (x # xs) = x @ concat (map (\<lambda>l. sep @ l) xs)"
  by (induction xs arbitrary: x) auto

lemma rstrip_snoc_space: "isspace c \<Longrightarrow> rstrip (s @ [c]) = rstrip s"
  by (simp add: rstrip_def)

lemma rstrip_keep: "s \<noteq> [] \<Longrightarrow> \<not> isspace (last s) \<Longrightarrow> rstrip (a @ s) = a @ s"
proof -
  assume "s \<noteq> []" and "\<not> isspace (last s)"
  then obtain b c where s: "s = b @ [c]" and c: "\<not> isspace c"
    by (metis append_butlast_last_id)
  show ?thesis
    unfolding s rstrip_def using c by simp
qed

lemma isspace_newline: "isspace (CHR 0x0A)"
  by (simp add: isspace_def whitespace_chars_def)

lemma body_lines:
  "concat (map (\<lambda>p. let p' = strip p in if p' \<noteq> [] then [p', ''''] else []) ps) =
   concat (map (\<lambda>p. [p, '''']) (filter (\<lambda>p. p \<noteq> []) (map strip ps)))"
  by (induction ps) (auto simp: Let_def)

lemma shift_blank:
  "[u, ''''] @ concat (map (\<lambda>p. [p, '''']) ps) = (u # concat (map (\<lambda>p. ['''', p]) ps)) @ ['''']"
  by (induction ps arbitrary: u) auto

lemma concat_blank_lines:
  "concat (map (\<lambda>l. ''\<newline>'' @ l) (concat (map (\<lambda>p. ['''', p]) ps))) =
   concat (map (\<lambda>p. ''\<newline>\<newline>'' @ p) ps)"
  by (induction ps) auto

lemma kept_trimmed: "p \<in> set (kept_paragraphs a) \<Longrightarrow> p \<noteq> [] \<and> \<not> isspace (last p)"
  using trimmed_strip by (auto simp: kept_paragraphs_def trimmed_def split: if_splits)

lemma joined_lines:
  "join ''\<newline>'' (article_lines t a site_slug) =
   head_text t a site_slug @ concat (map (\<lambda>p. ''\<newline>\<newline>'' @ p) (kept_paragraphs a)) @ ''\<newline>''"
proof -
  let ?ps = "kept_paragraphs a"
  let ?L = "(''URL: '' @ a_url a) # concat (map (\<lambda>p. ['''', p]) ?ps)"
  have tail: "[''URL: '' @ a_url a, ''''] @
       concat (map (\<lambda>p. let p' = strip p in if p' \<noteq> [] then [p', ''''] else [])
         (a_paragraphs a)) = ?L @ ['''']"
    unfolding body_lines kept_paragraphs_def [symmetric] by (rule shift_blank)
  have j: "concat (map ((#) (CHR 0x0A)) (concat (map (\<lambda>p. [[], p]) ?ps))) =
      concat (map (\<lambda>p. CHR 0x0A # CHR 0x0A # p) ?ps)"
    using concat_blank_lines [of ?ps] by simp
  show ?thesis
    unfolding article_lines_def tail
    by (cases "a_date a") (simp_all add: join_Cons head_text_def j)
qed

lemma write_text_article_text:
  assumes "a_title a = JStr t0"
  shows "write_text_article a site_slug =
     Inr (if kept_paragraphs a = []
          then rstrip (head_text (if t0 = [] then ''Untitled'' else t0) a site_slug) @ ''\<newline>''
          else head_text (if t0 = [] then ''Untitled'' else t0) a site_slug @
               concat (map (\<lambda>p. ''\<newline>\<newline>'' @ p) (kept_paragraphs a)) @ ''\<newline>'')"
proof -
  let ?t = "if t0 = [] then ''Untitled'' else t0"
  let ?X = "head_text ?t a site_slug @ concat (map (\<lambda>p. ''\<newline>\<newline>'' @ p) (kept_paragraphs a))"
  have "write_text_article a site_slug =
      Inr (rstrip (join ''\<newline>'' (article_lines ?t a site_slug)) @ ''\<newline>'')"
    using assms by (simp add: write_text_article_def)
  then have w: "write_text_article a site_slug = Inr (rstrip (?X @ ''\<newline>'') @ ''\<newline>'')"
    by (simp only: joined_lines append_assoc)
  have r: "rstrip (?X @ ''\<newline>'') = rstrip ?X"
    by (rule rstrip_snoc_space [OF isspace_newline])
  show ?thesis
  proof (cases "kept_paragraphs a = []")
    case True
    with w r show ?thesis by simp
  next
    case False
    then obtain ps p where ps: "kept_paragraphs a = ps @ [p]"
      by (metis append_butlast_last_id)
    then have "p \<noteq> [] \<and> \<not> isspace (last p)"
      using kept_trimmed [of p a] by simp
    then have "rstrip ((head_text ?t a site_slug @ concat (map (\<lambda>p. ''\<newline>\<newline>'' @ p) ps) @
        ''\<newline>\<newline>'') @ p) = (head_text ?t a site_slug @ concat (map (\<lambda>p. ''\<newline>\<newline>'' @ p) ps) @
        ''\<newline>\<newline>'') @ p"
      by (intro rstrip_keep) simp_all
    then have "rstrip ?X = ?X"
      by (simp add: ps)
    with w r False show ?thesis
      by (simp only: if_False append_assoc)
  qed
qed






lemma path_exists_write: "path_exists (write_file fs p c) q \<longleftrightarrow> q = p \<or> path_exists fs q"
  by (auto simp: path_exists_def write_file_def dom_update)




lemma txt_not_json: "x @ ''.txt'' \<noteq> y @ ''.json''"
proof
  assume "x @ ''.txt'' = y @ ''.json''"
  then have "last (x @ ''.txt'') = last (y @ ''.json'')"
    by simp
  then show False by simp
qed

lemma numbered_txt: "numbered stem ''.txt'' k = (stem @ '' ('' @ show_nat k @ '')'') @ ''.txt''"
  by (simp add: numbered_def)



lemma first_free_name_manifest:
  "first_free_name (write_file fs (dir @ [y @ ''.json'']) c) dir stem n = first_free_name fs dir stem n"
proof -
  have e: "path_exists (write_file fs (dir @ [y @ ''.json'']) c) (dir @ [x @ ''.txt'']) =
      path_exists fs (dir @ [x @ ''.txt''])" for x
    using txt_not_json [of x y] by (simp add: path_exists_write)
  have n: "path_exists (write_file fs (dir @ [y @ ''.json'']) c) (dir @ [numbered stem ''.txt'' k]) =
      path_exists fs (dir @ [numbered stem ''.txt'' k])" for k
    unfolding numbered_txt by (rule e)
  show ?thesis
    unfolding first_free_name_def e by (auto simp: n)
qed






section \<open>Facts about the reader\<close>

lemma splitlines_universal:
  "splitlines_from False cur (universal_newlines b s) = splitlines_from b cur s"
proof (induction s arbitrary: b cur)
  case Nil
  then show ?case by simp
next
  case (Cons c s)
  then show ?case
    by (auto simp: is_linebreak_def linebreak_chars_def)
qed

lemma splitlines_read_text: "splitlines (read_text s) = splitlines s"
  by (simp add: splitlines_def read_text_def splitlines_universal)

lemma linebreak_newline: "is_linebreak (CHR 0x0A)"
  by (simp add: is_linebreak_def linebreak_chars_def)

lemma splitlines_from_line:
  "no_linebreak a \<Longrightarrow>
   splitlines_from False cur (a @ CHR 0x0A # s) = (rev cur @ a) # splitlines_from False [] s"
proof (induction a arbitrary: cur)
  case Nil
  then show ?case by (simp add: linebreak_newline)
next
  case (Cons c a)
  then show ?case
    by (auto simp: no_linebreak_def)
qed

lemma splitlines_line: "no_linebreak a \<Longrightarrow> splitlines (a @ CHR 0x0A # s) = a # splitlines s"
  by (simp add: splitlines_def splitlines_from_line)

lemma splitlines_from_block:
  "p \<noteq> [] \<Longrightarrow> \<not> is_linebreak (last p) \<Longrightarrow>
   splitlines_from b cur (p @ CHR 0x0A # s) = splitlines_from b cur p @ splitlines_from False [] s"
proof (induction p arbitrary: b cur)
  case Nil
  then show ?case by simp
next
  case (Cons c p)
  show ?case
  proof (cases "p = []")
    case True
    with Cons.prems show ?thesis
      by (auto simp: linebreak_newline)
  next
    case False
    with Cons.prems have "\<not> is_linebreak (last p)" by simp
    from Cons.IH [OF False this] show ?thesis
      by simp
  qed
qed

lemma splitlines_block:
  "p \<noteq> [] \<Longrightarrow> \<not> is_linebreak (last p) \<Longrightarrow>
   splitlines (p @ CHR 0x0A # s) = splitlines p @ splitlines s"
  by (simp add: splitlines_def splitlines_from_block)

lemma splitlines_blank: "splitlines (CHR 0x0A # s) = [] # splitlines s"
  using splitlines_line [of "[]" s] by (simp add: no_linebreak_def)

lemma linebreak_is_space: "is_linebreak c \<Longrightarrow> isspace c"
  by (auto simp: is_linebreak_def linebreak_chars_def isspace_def whitespace_chars_def)

lemma splitlines_paragraphs:
  assumes "\<forall>p \<in> set ps. p \<noteq> [] \<and> \<not> isspace (last p)"
  shows "splitlines (concat (map (\<lambda>p. CHR 0x0A # p @ [CHR 0x0A]) ps)) =
     concat (map (\<lambda>p. [] # splitlines p) ps)"
  using assms
proof (induction ps)
  case Nil
  then show ?case by (simp add: splitlines_def)
next
  case (Cons p ps)
  then have "p \<noteq> []" and "\<not> is_linebreak (last p)"
    using linebreak_is_space by auto
  then have "splitlines (p @ CHR 0x0A # concat (map (\<lambda>p. CHR 0x0A # p @ [CHR 0x0A]) ps)) =
      splitlines p @ splitlines (concat (map (\<lambda>p. CHR 0x0A # p @ [CHR 0x0A]) ps))"
    by (rule splitlines_block)
  with Cons show ?case
    by (simp add: splitlines_blank)
qed

lemma rstrip_trimmed: "s = [] \<or> \<not> isspace (last s) \<Longrightarrow> rstrip s = s"
  using rstrip_keep [of s "[]"] by (cases "s = []") (simp_all add: rstrip_def)

lemma strip_trimmed: "trimmed s \<Longrightarrow> strip s = s"
proof (cases "s = []")
  case True
  then show ?thesis by (simp add: strip_def rstrip_def lstrip_def)
next
  case False
  assume "trimmed s"
  with False have h: "\<not> isspace (hd s)" and l: "\<not> isspace (last s)"
    by (simp_all add: trimmed_def)
  from l have "rstrip s = s" by (simp add: rstrip_trimmed)
  moreover from h False have "lstrip s = s"
    by (cases s) (simp_all add: lstrip_def)
  ultimately show ?thesis by (simp add: strip_def)
qed

lemma rstrip_rstrip: "rstrip (rstrip s) = rstrip s"
  using rstrip_last [of s] by (intro rstrip_trimmed) auto

lemma strip_rstrip: "strip (rstrip s) = strip s"
  by (simp add: strip_def rstrip_rstrip)

lemma rstrip_append:
  assumes "a \<noteq> []" and "\<not> isspace (last a)"
  shows "rstrip (a @ s) = a @ rstrip s"
proof -
  have "dropWhile isspace (rev a) = rev a"
    using assms by (cases "rev a") (auto simp: last_rev [symmetric] hd_rev)
  then show ?thesis
    using assms by (simp add: rstrip_def dropWhile_append)
qed

lemma strip_keep_prefix:
  assumes "a \<noteq> []" and "\<not> isspace (hd a)" and "\<not> isspace (last a)"
  shows "strip (a @ s) = a @ rstrip s"
proof -
  have "lstrip (a @ rstrip s) = a @ rstrip s"
    using assms(1,2) by (cases a) (simp_all add: lstrip_def)
  then show ?thesis
    by (simp add: strip_def rstrip_append [OF assms(1,3)])
qed

lemma strip_leading_space: "isspace c \<Longrightarrow> strip (c # u) = strip u"
proof -
  assume c: "isspace c"
  have "rstrip (c # u) = (if rstrip u = [] then [] else c # rstrip u)"
    using c by (auto simp: rstrip_def dropWhile_append dropWhile_eq_Nil_conv)
  then show ?thesis
    using c by (simp add: strip_def lstrip_def)
qed

lemma parse_lines_append: "parse_lines (xs @ ys) st = parse_lines ys (parse_lines xs st)"
  by (induction xs arbitrary: st) (simp_all add: Let_def)

lemma parse_lines_frame:
  assumes "\<forall>l \<in> set ls. \<not> meta_line l" and "fst (core st) \<noteq> None"
  shows "core (parse_lines ls st) = core st"
  using assms
proof (induction ls arbitrary: st)
  case Nil
  then show ?case by simp
next
  case (Cons l ls)
  from Cons.prems have nm: "\<not> startswith (lower (strip l)) ''published:''"
    "\<not> startswith (lower (strip l)) ''url:''"
    by (simp_all add: meta_line_def)
  from Cons.prems have rest: "\<forall>l \<in> set ls. \<not> meta_line l" by simp
  from Cons.prems obtain y where t: "m_title (ps_meta st) = Some y"
    by (auto simp: core_def)
  show ?case
  proof (cases "strip l = []")
    case True
    with Cons.IH [OF rest Cons.prems(2)] show ?thesis by simp
  next
    case False
    show ?thesis
    proof (cases "startswith (lower (strip l)) ''site:''")
      case True
      let ?st = "st\<lparr>ps_meta := (ps_meta st)\<lparr>m_site := Some (strip (after_first_colon (strip l)))\<rparr>\<rparr>"
      have c: "core ?st = core st" by (simp add: core_def)
      with Cons.prems have "fst (core ?st) \<noteq> None" by simp
      from Cons.IH [OF rest this] c False True t show ?thesis
        by (simp add: Let_def)
    next
      case nosite: False
      let ?st = "st\<lparr>ps_body := ps_body st @ [l]\<rparr>"
      have c: "core ?st = core st" by (simp add: core_def)
      with Cons.prems have "fst (core ?st) \<noteq> None" by simp
      from Cons.IH [OF rest this] c False nosite nm t show ?thesis
        by (simp add: Let_def)
    qed
  qed
qed

lemma parse_title_line:
  assumes "t \<noteq> []" and "trimmed t" and "CHR '':'' \<notin> set t" and "m_title (ps_meta st) = None"
  shows "parse_lines (t # rest) st =
     parse_lines rest (st\<lparr>ps_meta := (ps_meta st)\<lparr>m_title := Some t\<rparr>\<rparr>)"
  using assms by (simp add: strip_trimmed)

lemma isspace_space: "isspace (CHR '' '')"
  by (simp add: isspace_def whitespace_chars_def)

lemma lower_ascii: "lower ''Published:'' = ''published:''" "lower ''URL:'' = ''url:''"
  "lower ''Site:'' = ''site:''"
  by (simp_all add: lower_def lower_char_def ascii_upper_def ascii_lower_def latin1_upper_def
      latin1_lower_def)

lemma lower_append: "lower (a @ b) = lower a @ lower b"
  by (simp add: lower_def)

lemma stripped_key_line:
  assumes "key \<noteq> []" and "\<not> isspace (hd key)" and "\<not> isspace (last key)"
    and "strip l = strip (key @ CHR '' '' # v)" and "trimmed v"
  shows "strip l = key @ rstrip (CHR '' '' # v)" and "strip l \<noteq> []"
    and "CHR '':'' \<notin> set (butlast key) \<Longrightarrow> last key = CHR '':'' \<Longrightarrow>
       strip (after_first_colon (strip l)) = v"
proof -
  show s: "strip l = key @ rstrip (CHR '' '' # v)"
    using assms by (simp add: strip_keep_prefix)
  with assms(1) show "strip l \<noteq> []" by simp
  assume k: "CHR '':'' \<notin> set (butlast key)" "last key = CHR '':''"
  from assms(1) k(2) have key: "key = butlast key @ [CHR '':'']"
    by (metis append_butlast_last_id)
  have "dropWhile (\<lambda>c. c \<noteq> CHR '':'') (butlast key @ CHR '':'' # rstrip (CHR '' '' # v)) =
      CHR '':'' # rstrip (CHR '' '' # v)"
    using k(1) by (simp add: dropWhile_append)
  then have "after_first_colon (strip l) = rstrip (CHR '' '' # v)"
    unfolding s by (subst key) (simp add: after_first_colon_def)
  then show "strip (after_first_colon (strip l)) = v"
    using assms(5) by (simp add: strip_rstrip strip_leading_space isspace_space strip_trimmed)
qed

lemma parse_published_line:
  assumes "trimmed v" and "m_title (ps_meta st) \<noteq> None"
  shows "core (parse_lines [''Published: '' @ v] st) = (fst (core st), fst (snd (core st)), Some v)"
proof -
  let ?l = "''Published: '' @ v"
  have e: "strip ?l = strip (''Published:'' @ CHR '' '' # v)" by simp
  have isp: "\<not> isspace (CHR ''P'')" "\<not> isspace (CHR '':'')"
    by (simp_all add: isspace_def whitespace_chars_def)
  have s: "strip ?l = ''Published:'' @ rstrip (CHR '' '' # v)"
    and n: "strip ?l \<noteq> []"
    and v: "strip (after_first_colon (strip ?l)) = v"
    using stripped_key_line [of "''Published:''" ?l v, OF _ _ _ e assms(1)] isp by simp_all
  have low: "lower (strip ?l) = ''published:'' @ lower (rstrip (CHR '' '' # v))"
    unfolding s by (simp only: lower_append lower_ascii)
  have "startswith (lower (strip ?l)) ''published:''" "\<not> startswith (lower (strip ?l)) ''site:''"
    unfolding low by (simp_all add: startswith_def)
  with n v assms(2) show ?thesis
    by (simp add: Let_def core_def del: strip_def)
qed

lemma parse_url_line:
  assumes "strip l = strip (''URL: '' @ v)" and "trimmed v" and "m_title (ps_meta st) \<noteq> None"
  shows "core (parse_lines [l] st) = (fst (core st), Some v, snd (snd (core st)))"
proof -
  have e: "strip l = strip (''URL:'' @ CHR '' '' # v)" using assms(1) by simp
  have isp: "\<not> isspace (CHR ''U'')" "\<not> isspace (CHR '':'')"
    by (simp_all add: isspace_def whitespace_chars_def)
  have s: "strip l = ''URL:'' @ rstrip (CHR '' '' # v)"
    and n: "strip l \<noteq> []"
    and v: "strip (after_first_colon (strip l)) = v"
    using stripped_key_line [of "''URL:''" l v, OF _ _ _ e assms(2)] isp by simp_all
  have low: "lower (strip l) = ''url:'' @ lower (rstrip (CHR '' '' # v))"
    unfolding s by (simp only: lower_append lower_ascii)
  have "startswith (lower (strip l)) ''url:''" "\<not> startswith (lower (strip l)) ''site:''"
    "\<not> startswith (lower (strip l)) ''published:''"
    unfolding low by (simp_all add: startswith_def)
  with n v assms(3) show ?thesis
    by (simp add: Let_def core_def)
qed

lemma site_line_not_meta: "\<not> meta_line (''Site: '' @ S)"
proof -
  have isp: "\<not> isspace (CHR ''S'')" "\<not> isspace (CHR '':'')"
    by (simp_all add: isspace_def whitespace_chars_def)
  have "strip (''Site:'' @ CHR '' '' # S) = ''Site:'' @ rstrip (CHR '' '' # S)"
    using isp by (intro strip_keep_prefix) simp_all
  moreover have "''Site: '' @ S = ''Site:'' @ CHR '' '' # S" by simp
  ultimately have "lower (strip (''Site: '' @ S)) = lower (''Site:'' @ rstrip (CHR '' '' # S))"
    by (simp only:)
  then have "lower (strip (''Site: '' @ S)) = ''site:'' @ lower (rstrip (CHR '' '' # S))"
    by (simp only: lower_append lower_ascii)
  then show ?thesis
    by (simp add: meta_line_def startswith_def)
qed

lemma blank_not_meta: "\<not> meta_line []"
  by (simp add: meta_line_def startswith_def strip_def rstrip_def lstrip_def lower_def)

lemma paragraphs_shift:
  "ps \<noteq> [] \<Longrightarrow>
   concat (map (\<lambda>p. ''\<newline>\<newline>'' @ p) ps) @ ''\<newline>'' =
   CHR 0x0A # concat (map (\<lambda>p. CHR 0x0A # p @ [CHR 0x0A]) ps)"
  by (induction ps rule: list_nonempty_induct) simp_all

lemma no_linebreak_append: "no_linebreak (a @ b) = (no_linebreak a \<and> no_linebreak b)"
  by (simp add: no_linebreak_def)

lemma no_linebreak_rstrip: "no_linebreak s \<Longrightarrow> no_linebreak (rstrip s)"
proof -
  assume "no_linebreak s"
  moreover have "set (rstrip s) \<subseteq> set s"
    using set_dropWhileD [of _ isspace "rev s"] by (auto simp: rstrip_def)
  ultimately show ?thesis
    by (auto simp: no_linebreak_def list_all_iff)
qed

lemma digit_plain: "\<not> is_linebreak (digit_of n)"
  using digit_of_any(3) [of n] linebreak_is_space by blast

lemma hyphen_plain: "\<not> is_linebreak (CHR ''-'')"
  by (simp add: is_linebreak_def linebreak_chars_def)

lemma isoformat_plain: "trimmed (isoformat d)" "no_linebreak (isoformat d)"
  by (simp_all add: isoformat_def pad4_def pad2_def trimmed_def digit_of_any no_linebreak_def
      digit_plain hyphen_plain)

lemma no_linebreak_literals:
  "no_linebreak ''Site: ''" "no_linebreak ''Published: ''" "no_linebreak ''URL: ''"
  "no_linebreak ''URL:''" "no_linebreak []"
  by (simp_all add: no_linebreak_def is_linebreak_def linebreak_chars_def)

lemma splitlines_Nil: "splitlines [] = []"
  by (simp add: splitlines_def)

lemma stored_lines:
  assumes t: "a_title a = JStr t" "t \<noteq> []" "no_linebreak t"
    and s: "no_linebreak (upper site_slug)"
    and u: "no_linebreak (a_url a)" "trimmed (a_url a)"
  shows "\<exists>stored U. write_text_article a site_slug = Inr stored \<and>
     strip U = strip (''URL: '' @ a_url a) \<and>
     splitlines stored =
       [t, [], ''Site: '' @ upper site_slug] @
       (case a_date a of Some d \<Rightarrow> [''Published: '' @ isoformat d] | None \<Rightarrow> []) @
       [U] @ concat (map (\<lambda>p. [] # splitlines p) (kept_paragraphs a))"
proof -
  define site where "site = ''Site: '' @ upper site_slug"
  let ?pub = "case a_date a of Some d \<Rightarrow> [''Published: '' @ isoformat d] | None \<Rightarrow> []"
  let ?pubtext = "case a_date a of Some d \<Rightarrow> ''Published: '' @ isoformat d @ ''\<newline>'' | None \<Rightarrow> []"
  have site: "no_linebreak site"
    using s unfolding site_def by (simp only: no_linebreak_append no_linebreak_literals)
  have head: "\<And>r. splitlines (t @ CHR 0x0A # CHR 0x0A # site @ CHR 0x0A # ?pubtext @ r) =
      [t, [], site] @ ?pub @ splitlines r"
  proof -
    fix r
    have "splitlines (?pubtext @ r) = ?pub @ splitlines r"
    proof (cases "a_date a")
      case None
      then show ?thesis by simp
    next
      case (Some d)
      have "no_linebreak (''Published: '' @ isoformat d)"
        by (simp only: no_linebreak_append no_linebreak_literals isoformat_plain)
      from splitlines_line [OF this, of r] Some show ?thesis by simp
    qed
    then show "splitlines (t @ CHR 0x0A # CHR 0x0A # site @ CHR 0x0A # ?pubtext @ r) =
      [t, [], site] @ ?pub @ splitlines r"
      by (simp add: splitlines_line [OF t(3)] splitlines_blank splitlines_line [OF site])
  qed
  have w: "write_text_article a site_slug =
     Inr (if kept_paragraphs a = []
          then rstrip (head_text t a site_slug) @ ''\<newline>''
          else head_text t a site_slug @
               concat (map (\<lambda>p. ''\<newline>\<newline>'' @ p) (kept_paragraphs a)) @ ''\<newline>'')"
    using write_text_article_text [OF t(1), of site_slug] t(2) by simp
  have h: "head_text t a site_slug =
      (t @ CHR 0x0A # CHR 0x0A # site @ CHR 0x0A # ?pubtext @ ''URL:'') @ CHR '' '' # a_url a"
    by (simp add: head_text_def site_def)
  show ?thesis
  proof (cases "kept_paragraphs a = []")
    case True
    let ?U = "''URL:'' @ rstrip (CHR '' '' # a_url a)"
    have "rstrip (head_text t a site_slug) =
        (t @ CHR 0x0A # CHR 0x0A # site @ CHR 0x0A # ?pubtext @ ''URL:'') @
        rstrip (CHR '' '' # a_url a)"
      unfolding h by (rule rstrip_append) (simp_all add: isspace_def whitespace_chars_def)
    then have st: "rstrip (head_text t a site_slug) @ ''\<newline>'' =
        t @ CHR 0x0A # CHR 0x0A # site @ CHR 0x0A # ?pubtext @ (?U @ CHR 0x0A # [])"
      by simp
    have "no_linebreak (CHR '' '' # a_url a)"
      using u(1) by (simp add: no_linebreak_def is_linebreak_def linebreak_chars_def)
    then have "no_linebreak ?U"
      by (simp only: no_linebreak_append no_linebreak_literals no_linebreak_rstrip)
    from splitlines_line [OF this, of "[]"] have "splitlines (?U @ CHR 0x0A # []) = [?U]"
      by (simp add: splitlines_Nil)
    then have l: "splitlines (rstrip (head_text t a site_slug) @ ''\<newline>'') =
        [t, [], site] @ ?pub @ [?U] @ concat (map (\<lambda>p. [] # splitlines p) (kept_paragraphs a))"
      unfolding st head True by simp
    have "strip ?U = ''URL:'' @ rstrip (rstrip (CHR '' '' # a_url a))"
      by (rule strip_keep_prefix) (simp_all add: isspace_def whitespace_chars_def)
    moreover have "strip (''URL:'' @ CHR '' '' # a_url a) = ''URL:'' @ rstrip (CHR '' '' # a_url a)"
      by (rule strip_keep_prefix) (simp_all add: isspace_def whitespace_chars_def)
    ultimately have e: "strip ?U = strip (''URL: '' @ a_url a)"
      by (simp add: rstrip_rstrip)
    from w True have "write_text_article a site_slug =
        Inr (rstrip (head_text t a site_slug) @ ''\<newline>'')"
      by (simp only: if_True simp_thms)
    with e l [unfolded site_def] show ?thesis
      by (intro exI conjI)
  next
    case False
    let ?U = "''URL: '' @ a_url a"
    let ?body = "concat (map (\<lambda>p. CHR 0x0A # p @ [CHR 0x0A]) (kept_paragraphs a))"
    have st: "head_text t a site_slug @
        concat (map (\<lambda>p. ''\<newline>\<newline>'' @ p) (kept_paragraphs a)) @ ''\<newline>'' =
        t @ CHR 0x0A # CHR 0x0A # site @ CHR 0x0A # ?pubtext @ (?U @ CHR 0x0A # ?body)"
      by (simp only: paragraphs_shift [OF False] h) simp
    have "no_linebreak ?U"
      using u(1) by (simp only: no_linebreak_append no_linebreak_literals)
    from splitlines_line [OF this, of ?body]
    have "splitlines (?U @ CHR 0x0A # ?body) =
        ?U # concat (map (\<lambda>p. [] # splitlines p) (kept_paragraphs a))"
      using splitlines_paragraphs [of "kept_paragraphs a"] kept_trimmed [of _ a] by simp
    then have l: "splitlines (head_text t a site_slug @
        concat (map (\<lambda>p. ''\<newline>\<newline>'' @ p) (kept_paragraphs a)) @ ''\<newline>'') =
        [t, [], site] @ ?pub @ [?U] @ concat (map (\<lambda>p. [] # splitlines p) (kept_paragraphs a))"
      unfolding st head by simp
    from w False have "write_text_article a site_slug =
        Inr (head_text t a site_slug @
          concat (map (\<lambda>p. ''\<newline>\<newline>'' @ p) (kept_paragraphs a)) @ ''\<newline>'')"
      by (simp only: if_False simp_thms)
    with refl [of "strip ?U"] l [unfolded site_def] show ?thesis
      by (intro exI conjI)
  qed
qed

lemma core_title: "fst (core st) \<noteq> None \<longleftrightarrow> m_title (ps_meta st) \<noteq> None"
  by (simp add: core_def)

lemma round_trip:
  assumes t: "a_title a = JStr t" "t \<noteq> []" "trimmed t" "CHR '':'' \<notin> set t" "no_linebreak t"
    and s: "no_linebreak (upper site_slug)"
    and u: "no_linebreak (a_url a)" "trimmed (a_url a)"
    and b: "\<forall>p \<in> set (a_paragraphs a). \<forall>l \<in> set (splitlines (strip p)). \<not> meta_line l"
  shows "\<exists>stored. write_text_article a site_slug = Inr stored \<and>
     core (parse_lines (splitlines (read_text stored))
       \<lparr>ps_meta = \<lparr>m_title = None, m_url = None, m_published = None, m_site = None\<rparr>,
        ps_body = []\<rparr>) =
     (Some t, Some (a_url a), map_option isoformat (a_date a))"
proof -
  let ?st0 = "\<lparr>ps_meta = \<lparr>m_title = None, m_url = None, m_published = None, m_site = None\<rparr>,
        ps_body = []\<rparr>"
  let ?pub = "case a_date a of Some d \<Rightarrow> [''Published: '' @ isoformat d] | None \<Rightarrow> []"
  let ?body = "concat (map (\<lambda>p. [] # splitlines p) (kept_paragraphs a))"
  from stored_lines [OF t(1,2,5) s u] obtain stored U where
    w: "write_text_article a site_slug = Inr stored" and
    U: "strip U = strip (''URL: '' @ a_url a)" and
    l: "splitlines stored = [t, [], ''Site: '' @ upper site_slug] @ ?pub @ [U] @ ?body"
    by blast
  define st1 where "st1 = parse_lines [t] ?st0"
  define st2 where "st2 = parse_lines [[], ''Site: '' @ upper site_slug] st1"
  define st3 where "st3 = parse_lines ?pub st2"
  define st4 where "st4 = parse_lines [U] st3"
  define st5 where "st5 = parse_lines ?body st4"
  have all: "parse_lines (splitlines (read_text stored)) ?st0 = st5"
    unfolding splitlines_read_text l st5_def st4_def st3_def st2_def st1_def
    by (simp only: parse_lines_append [symmetric] append_Cons append_Nil append_assoc)
  have "st1 = parse_lines [] (?st0\<lparr>ps_meta := (ps_meta ?st0)\<lparr>m_title := Some t\<rparr>\<rparr>)"
    unfolding st1_def using t(2,3,4) by (intro parse_title_line) simp_all
  then have c1: "core st1 = (Some t, None, None)"
    by (simp add: core_def)
  have "\<forall>l \<in> set [[], ''Site: '' @ upper site_slug]. \<not> meta_line l"
    using blank_not_meta site_line_not_meta [of "upper site_slug"] by simp
  from parse_lines_frame [OF this, of st1] c1 have c2: "core st2 = (Some t, None, None)"
    by (simp add: st2_def)
  have c3: "core st3 = (Some t, None, map_option isoformat (a_date a))"
  proof (cases "a_date a")
    case None
    with c2 show ?thesis by (simp add: st3_def)
  next
    case (Some d)
    from c2 have "m_title (ps_meta st2) \<noteq> None" by (simp add: core_def)
    from parse_published_line [OF isoformat_plain(1) this, of d] c2 Some show ?thesis
      by (simp add: st3_def)
  qed
  then have "m_title (ps_meta st3) \<noteq> None" by (simp add: core_def)
  from parse_url_line [OF U u(2) this] c3
  have c4: "core st4 = (Some t, Some (a_url a), map_option isoformat (a_date a))"
    by (simp add: st4_def)
  have "\<forall>l \<in> set ?body. \<not> meta_line l"
    using b blank_not_meta by (auto simp: kept_paragraphs_def)
  from parse_lines_frame [OF this, of st4] c4
  have "core st5 = (Some t, Some (a_url a), map_option isoformat (a_date a))"
    by (simp add: st5_def)
  with w all show ?thesis by simp
qed

lemma rstrip_head_text:
  "rstrip (head_text t a site_slug) =
     t @ ''\<newline>\<newline>Site: '' @ upper site_slug @ ''\<newline>'' @
     (case a_date a of Some d \<Rightarrow> ''Published: '' @ isoformat d @ ''\<newline>'' | None \<Rightarrow> []) @
     ''URL:'' @ rstrip ('' '' @ a_url a)"
proof -
  let ?h = "t @ ''\<newline>\<newline>Site: '' @ upper site_slug @ ''\<newline>'' @
     (case a_date a of Some d \<Rightarrow> ''Published: '' @ isoformat d @ ''\<newline>'' | None \<Rightarrow> []) @ ''URL:''"
  have "head_text t a site_slug = ?h @ '' '' @ a_url a"
    by (simp add: head_text_def)
  moreover have "rstrip (?h @ '' '' @ a_url a) = ?h @ rstrip ('' '' @ a_url a)"
    by (rule rstrip_append) (simp_all add: isspace_def whitespace_chars_def)
  ultimately show ?thesis by simp
qed

lemma lines_blank_before:
  "concat (map (\<lambda>l. l @ ''\<newline>'') (concat (map (\<lambda>p. ['''', p]) ps))) =
   concat (map (\<lambda>p. CHR 0x0A # p @ [CHR 0x0A]) ps)"
  by (induction ps) simp_all

lemma written_text:
  assumes "a_title a = JStr t0"
  shows "write_text_article a site_slug =
     Inr (concat (map (\<lambda>l. l @ ''\<newline>'') (written_lines (shown_title t0) a site_slug)))"
proof (cases "kept_paragraphs a = []")
  case True
  have "write_text_article a site_slug =
      Inr (rstrip (head_text (shown_title t0) a site_slug) @ ''\<newline>'')"
    using write_text_article_text [OF assms, of site_slug] True
    by (simp add: shown_title_def)
  moreover have "concat (map (\<lambda>l. l @ ''\<newline>'') (written_lines (shown_title t0) a site_slug)) =
      rstrip (head_text (shown_title t0) a site_slug) @ ''\<newline>''"
    unfolding rstrip_head_text using True
    by (simp add: written_lines_def url_line_def split: option.split)
  ultimately show ?thesis by simp
next
  case False
  let ?ps = "kept_paragraphs a"
  have "write_text_article a site_slug =
      Inr (head_text (shown_title t0) a site_slug @
        concat (map (\<lambda>p. ''\<newline>\<newline>'' @ p) ?ps) @ ''\<newline>'')"
    using write_text_article_text [OF assms, of site_slug] False
    by (simp only: shown_title_def if_False)
  then have "write_text_article a site_slug =
      Inr (head_text (shown_title t0) a site_slug @
        CHR 0x0A # concat (map (\<lambda>p. CHR 0x0A # p @ [CHR 0x0A]) ?ps))"
    by (simp only: paragraphs_shift [OF False])
  moreover have "concat (map (\<lambda>l. l @ ''\<newline>'') (written_lines (shown_title t0) a site_slug)) =
      head_text (shown_title t0) a site_slug @
        CHR 0x0A # concat (map (\<lambda>p. CHR 0x0A # p @ [CHR 0x0A]) ?ps)"
    using False lines_blank_before [of ?ps]
    by (simp add: written_lines_def url_line_def head_text_def split: option.split)
  ultimately show ?thesis by simp
qed


lemma reread:
  assumes "a_title a = JStr t" and "t \<noteq> []" and "trimmed t" and "CHR '':'' \<notin> set t"
    and "no_linebreak t" and "no_linebreak (upper site_slug)"
    and "no_linebreak (a_url a)" and "trimmed (a_url a)"
    and "\<forall>p \<in> set (a_paragraphs a). \<forall>l \<in> set (splitlines (strip p)). \<not> meta_line l"
  shows "\<exists>m. write_then_parse a site_slug = Inr m \<and> m_title m = Some t \<and>
     m_url m = Some (a_url a) \<and> m_published m = map_option isoformat (a_date a)"
proof -
  from round_trip [OF assms] obtain stored where
    w: "write_text_article a site_slug = Inr stored" and
    c: "core (parse_lines (splitlines (read_text stored))
       \<lparr>ps_meta = \<lparr>m_title = None, m_url = None, m_published = None, m_site = None\<rparr>,
        ps_body = []\<rparr>) =
     (Some t, Some (a_url a), map_option isoformat (a_date a))"
    by blast
  from w have "write_then_parse a site_slug = Inr (fst (parse_article_file stored))"
    by (simp add: write_then_parse_def)
  moreover from c have "m_title (fst (parse_article_file stored)) = Some t \<and>
     m_url (fst (parse_article_file stored)) = Some (a_url a) \<and>
     m_published (fst (parse_article_file stored)) = map_option isoformat (a_date a)"
    by (simp add: parse_article_file_def Let_def core_def)
  ultimately show ?thesis by blast
qed























lemma save_articles_name_too_long: "fst (save_articles ''wmur'' (Date 2025 9 5)
    [town_article\<lparr>a_title := JStr (replicate 150 (CHR 0xE9))\<rparr>] offline) = Inl OSError"
  by code_simp

lemma save_articles_nul_in_title: "fst (save_articles ''wmur'' (Date 2025 9 5)
    [town_article\<lparr>a_title := JStr [CHR ''a'', CHR 0x00, CHR ''b'']\<rparr>] offline) = Inl ValueError"
  by code_simp


lemma fetch_html_world:
  "requests (snd (fetch_html u w)) = requests w @ [u]"
  "files (snd (fetch_html u w)) = files w"
  "net (snd (fetch_html u w)) = net w"
  by (simp_all add: fetch_html_def http_get_def log_msg_def split: sum.split)

lemma fetch_html_result:
  "fst (fetch_html u w) = map_sum id html (net w (length (requests w)) u)"
  by (simp add: fetch_html_def http_get_def split: sum.split)

lemma fetch_html_failure:
  assumes "net w (length (requests w)) u = Inl e"
  shows "fetch_html u w =
     (Inl e, (if e = RequestException then log_msg ''fetch_html'' ERROR u else id)
               (w\<lparr>requests := requests w @ [u]\<rparr>))"
  using assms by (simp add: fetch_html_def http_get_def)

lemma wmur_collect_step:
  "wmur_collect (a # hrefs) urls = wmur_collect hrefs urls \<or>
   (\<exists>href. href \<notin> set urls \<and> startswith href wmur_BASE_URL \<and>
      (if MAX_ARTICLES \<le> length (urls @ [href])
       then wmur_collect (a # hrefs) urls = urls @ [href]
       else wmur_collect (a # hrefs) urls = wmur_collect hrefs (urls @ [href])))"
proof -
  define href where "href = (if startswith a ''/'' then wmur_BASE_URL @ a else a)"
  have "wmur_collect (a # hrefs) urls = wmur_collect hrefs urls \<or>
     (href \<notin> set urls \<and> startswith href wmur_BASE_URL \<and>
      (if MAX_ARTICLES \<le> length (urls @ [href])
       then wmur_collect (a # hrefs) urls = urls @ [href]
       else wmur_collect (a # hrefs) urls = wmur_collect hrefs (urls @ [href])))"
    by (cases "a = []"; cases "startswith href wmur_BASE_URL"; cases "contains ''/article/'' href";
        cases "any_in NON_NEWS_KEYWORDS (lower href)"; cases "href \<in> set urls";
        cases "MAX_ARTICLES \<le> length (urls @ [href])")
      (simp_all add: Let_def href_def [symmetric] split del: if_split)
  then show ?thesis by blast
qed

lemma wmur_collect_length:
  "length urls < MAX_ARTICLES \<Longrightarrow> length (wmur_collect hrefs urls) \<le> MAX_ARTICLES"
proof (induction hrefs arbitrary: urls)
  case Nil
  then show ?case by simp
next
  case (Cons a hrefs)
  from wmur_collect_step [of a hrefs urls] show ?case
  proof (elim disjE exE conjE)
    assume "wmur_collect (a # hrefs) urls = wmur_collect hrefs urls"
    with Cons show ?thesis by simp
  next
    fix href
    assume s: "if MAX_ARTICLES \<le> length (urls @ [href])
       then wmur_collect (a # hrefs) urls = urls @ [href]
       else wmur_collect (a # hrefs) urls = wmur_collect hrefs (urls @ [href])"
    show ?thesis
    proof (cases "MAX_ARTICLES \<le> length (urls @ [href])")
      case True
      with s Cons.prems show ?thesis by simp
    next
      case False
      with s Cons.IH [of "urls @ [href]"] show ?thesis by simp
    qed
  qed
qed

lemma dated_links_length:
  "length urls < MAX_ARTICLES \<Longrightarrow> dated_links lib base d hrefs urls = Inr found \<Longrightarrow>
   length found \<le> MAX_ARTICLES"
proof (induction hrefs arbitrary: urls)
  case Nil
  then show ?case by simp
next
  case (Cons a hrefs)
  show ?case
  proof (cases "a = []")
    case True
    with Cons show ?thesis by simp
  next
    case False
    from Cons.prems(2) False obtain href where
      h: "(if startswith a ''/'' then urljoin lib base a else Inr a) = Inr href"
      by (auto split: sum.splits)
    show ?thesis
      using Cons.prems Cons.IH [of urls] Cons.IH [of "urls @ [href]"] False h
      by (auto split: sum.splits option.splits if_splits)
  qed
qed

lemma date_checks_length:
  "length valid \<le> MAX_ARTICLES \<Longrightarrow>
   length (fst (date_checks d candidates valid w)) \<le> MAX_ARTICLES"
proof (induction candidates arbitrary: valid w)
  case Nil
  then show ?case by simp
next
  case (Cons u candidates)
  show ?case
  proof (cases "length valid \<ge> MAX_ARTICLES")
    case True
    with Cons.prems show ?thesis by simp
  next
    case False
    then have "length (valid @ [u]) \<le> MAX_ARTICLES" by simp
    with False Cons.prems Cons.IH show ?thesis
      by (auto split: prod.splits sum.splits simp del: length_append)
  qed
qed

lemma date_checks_requests:
  "length (requests (snd (date_checks d candidates valid w))) \<le>
   length (requests w) + length candidates"
proof (induction candidates arbitrary: valid w)
  case Nil
  then show ?case by simp
next
  case (Cons u candidates)
  show ?case
  proof (cases "length valid \<ge> MAX_ARTICLES")
    case True
    then show ?thesis by simp
  next
    case False
    obtain r w1 where f: "fetch_html u (log_msg ''mykeenenow'' INFO u w) = (r, w1)"
      by (cases "fetch_html u (log_msg ''mykeenenow'' INFO u w)")
    from fetch_html_world(1) [of u "log_msg ''mykeenenow'' INFO u w"] f
    have len: "length (requests w1) = length (requests w) + 1"
      by (simp add: log_msg_def)
    have "\<And>v x. requests x = requests w1 \<Longrightarrow>
        length (requests (snd (date_checks d candidates v x))) \<le>
        length (requests w) + length (u # candidates)"
    proof -
      fix v and x :: world
      assume "requests x = requests w1"
      with Cons.IH [of v x] len show "length (requests (snd (date_checks d candidates v x))) \<le>
        length (requests w) + length (u # candidates)"
        by simp
    qed
    note step = this
    show ?thesis
      using False f step [of w1] step [of "log_msg ''mykeenenow'' WARNING u w1"]
      by (auto split: sum.splits simp: log_msg_def simp del: date_checks.simps
          simp add: date_checks.simps(2) [of d u candidates valid w])
  qed
qed

lemma scrape_loop_inv:
  assumes "Inv w"
    and "\<And>u w r w1. u \<in> set urls \<Longrightarrow> Inv w \<Longrightarrow> f u d (log_msg site INFO u w) = (r, w1) \<Longrightarrow>
       Inv (log_msg site ERROR u w1) \<and> Inv w1 \<and>
       (\<forall>art. r = Inr (Some art) \<and> keep art \<longrightarrow> P art)"
  shows "list_all P (fst (scrape_loop site f keep d urls w))"
  using assms
proof (induction urls arbitrary: w)
  case Nil
  then show ?case by simp
next
  case (Cons u urls)
  obtain r w1 where f: "f u d (log_msg site INFO u w) = (r, w1)"
    by (cases "f u d (log_msg site INFO u w)")
  from Cons.prems(2) [OF _ Cons.prems(1) f]
  have i: "Inv (log_msg site ERROR u w1)" "Inv w1"
    and p: "\<forall>art. r = Inr (Some art) \<and> keep art \<longrightarrow> P art"
    by simp_all
  have rest: "\<And>x. Inv x \<Longrightarrow> list_all P (fst (scrape_loop site f keep d urls x))"
  proof -
    fix x :: world
    assume "Inv x"
    then show "list_all P (fst (scrape_loop site f keep d urls x))"
    proof (rule Cons.IH)
      fix ua r and v v1 :: world
      assume "ua \<in> set urls" and "Inv v" and "f ua d (log_msg site INFO ua v) = (r, v1)"
      then show "Inv (log_msg site ERROR ua v1) \<and> Inv v1 \<and>
          (\<forall>art. r = Inr (Some art) \<and> keep art \<longrightarrow> P art)"
        using Cons.prems(2) [of ua v r v1] by simp
    qed
  qed
  show ?case
  proof (cases r)
    case (Inl e)
    with f rest [OF i(1)] show ?thesis by simp
  next
    case (Inr o1)
    show ?thesis
    proof (cases o1)
      case None
      with Inr f rest [OF i(2)] show ?thesis by simp
    next
      case (Some art)
      with Inr f rest [OF i(2)] p show ?thesis
        by (auto split: prod.split)
    qed
  qed
qed

lemma scrape_loop_plain:
  assumes "\<And>u w art w1. u \<in> set urls \<Longrightarrow> f u d w = (Inr (Some art), w1) \<Longrightarrow> keep art \<Longrightarrow> P art"
  shows "list_all P (fst (scrape_loop site f keep d urls w))"
proof (rule scrape_loop_inv [where Inv = "\<lambda>w. True"])
  show True ..
next
  fix u r and w w1 :: world
  assume "u \<in> set urls" and "f u d (log_msg site INFO u w) = (r, w1)"
  with assms show "True \<and> True \<and> (\<forall>art. r = Inr (Some art) \<and> keep art \<longrightarrow> P art)"
    by blast
qed

lemma wmur_scrape_dates:
  assumes "fst (wmur_scrape d w) = Inr arts"
  shows "list_all (\<lambda>art. a_date art = Some d) arts"
proof -
  from assms have "\<exists>candidates w1.
      arts = fst (scrape_loop ''wmur'' wmur_scrape_article (\<lambda>art. a_date art = Some d) d
        candidates w1)"
    by (auto simp: wmur_scrape_def split: prod.splits sum.splits) (metis fst_conv)
  then show ?thesis
    by (auto simp: scrape_loop_plain)
qed

lemma dated_links_dates:
  "list_all (\<lambda>u. url_date u = Inr (Some d)) urls \<Longrightarrow>
   dated_links lib base d hrefs urls = Inr found \<Longrightarrow>
   list_all (\<lambda>u. url_date u = Inr (Some d)) found"
proof (induction hrefs arbitrary: urls)
  case Nil
  then show ?case by simp
next
  case (Cons a hrefs)
  show ?case
  proof (cases "a = []")
    case True
    with Cons show ?thesis by simp
  next
    case False
    from Cons.prems(2) False obtain href where
      h: "(if startswith a ''/'' then urljoin lib base a else Inr a) = Inr href"
      by (auto split: sum.splits)
    show ?thesis
      using Cons.prems Cons.IH [of urls] Cons.IH [of "urls @ [href]"] False h
      by (auto split: sum.splits option.splits if_splits)
  qed
qed

lemma wcax_scrape_article_date:
  assumes "url_date u = Inr (Some d)" and "wcax_scrape_article u fb w = (Inr (Some art), w1)"
  shows "a_date art = Some d"
  using assms
  by (auto simp: wcax_scrape_article_def Let_def split: prod.splits sum.splits if_splits)

lemma vtdigger_scrape_article_date:
  assumes "url_date u = Inr (Some d)" and "vtdigger_scrape_article u fb w = (Inr (Some art), w1)"
  shows "a_date art = Some d"
  using assms
  by (auto simp: vtdigger_scrape_article_def Let_def
      split: prod.splits sum.splits if_splits option.splits)

lemma wcax_scrape_dates:
  assumes "fst (wcax_scrape lib d w) = Inr arts"
  shows "list_all (\<lambda>art. a_date art = Some d) arts"
proof -
  from assms obtain urls w0 w1 where
    u: "wcax_get_urls_for_date lib d w0 = (Inr urls, w1)" and
    a: "arts = fst (scrape_loop ''wcax'' wcax_scrape_article (\<lambda>art. True) d urls
        (log_msg ''wcax'' INFO (show_nat (length urls)) w1))"
    by (auto simp: wcax_scrape_def split: prod.splits sum.splits)
  from u obtain hrefs where "dated_links lib wcax_BASE_URL d hrefs [] = Inr urls"
    by (auto simp: wcax_get_urls_for_date_def split: prod.splits sum.splits)
  from dated_links_dates [OF _ this] have "list_all (\<lambda>u. url_date u = Inr (Some d)) urls"
    by simp
  then have "\<And>u w art w1. u \<in> set urls \<Longrightarrow> wcax_scrape_article u d w = (Inr (Some art), w1) \<Longrightarrow>
      a_date art = Some d"
    using wcax_scrape_article_date by (auto simp: list_all_iff)
  then show ?thesis
    unfolding a by (intro scrape_loop_plain) blast
qed

lemma vtdigger_scrape_dates:
  assumes "fst (vtdigger_scrape lib d w) = Inr arts"
  shows "list_all (\<lambda>art. a_date art = Some d) arts"
proof -
  from assms obtain urls w0 w1 where
    u: "vtdigger_get_urls_for_date lib d w0 = (Inr urls, w1)" and
    a: "arts = fst (scrape_loop ''vtdigger'' vtdigger_scrape_article (\<lambda>art. True) d urls
        (log_msg ''vtdigger'' INFO (show_nat (length urls)) w1))"
    by (auto simp: vtdigger_scrape_def split: prod.splits sum.splits)
  from u obtain hrefs where "dated_links lib vtdigger_BASE_URL d hrefs [] = Inr urls"
    by (auto simp: vtdigger_get_urls_for_date_def split: prod.splits sum.splits)
  from dated_links_dates [OF _ this] have "list_all (\<lambda>u. url_date u = Inr (Some d)) urls"
    by simp
  then have "\<And>u w art w1. u \<in> set urls \<Longrightarrow>
      vtdigger_scrape_article u d w = (Inr (Some art), w1) \<Longrightarrow> a_date art = Some d"
    using vtdigger_scrape_article_date by (auto simp: list_all_iff)
  then show ?thesis
    unfolding a by (intro scrape_loop_plain) blast
qed

lemma blox_row_kept:
  assumes "blox_row lib base keys stops d row = Inr (Some art)"
  shows "a_date art = Some d \<and> a_paragraphs art \<noteq> []"
  using assms
  by (auto simp: blox_row_def Let_def split: sum.splits if_splits prod.splits)

lemma blox_rows_kept:
  "blox_rows lib site base keys stops d rows w = (Inr arts, w1) \<Longrightarrow>
   list_all (\<lambda>art. a_date art = Some d \<and> a_paragraphs art \<noteq> []) arts"
proof (induction rows arbitrary: w arts)
  case Nil
  then show ?case by simp
next
  case (Cons row rows)
  show ?case
  proof (cases "blox_row lib base keys stops d row")
    case (Inl e)
    with Cons.prems show ?thesis by simp
  next
    case (Inr o1)
    show ?thesis
    proof (cases o1)
      case None
      with Inr Cons show ?thesis by simp
    next
      case (Some art)
      with Inr Cons.prems obtain rest where
        r: "blox_rows lib site base keys stops d rows (log_msg site INFO (a_url art) w) =
          (Inr rest, w1)" and a: "arts = art # rest"
        by (auto split: prod.splits sum.splits)
      from Cons.IH [OF r] blox_row_kept [of lib base keys stops d row art] Inr Some a
      show ?thesis by simp
    qed
  qed
qed

lemma blox_scrape_kept:
  assumes "fst (blox_scrape lib site request base keys stops d w) = Inr arts"
  shows "list_all (\<lambda>art. a_date art = Some d \<and> a_paragraphs art \<noteq> []) arts"
proof (cases "fst (api_request request (log_msg site INFO (isoformat d) w))")
  case (Inl e)
  with assms show ?thesis
    by (auto simp: blox_scrape_def split: prod.splits sum.splits)
next
  case (Inr data)
  with assms obtain rows w0 w1 where
    "blox_rows lib site base keys stops d rows w0 = (Inr arts, w1)"
    by (auto simp: blox_scrape_def split: prod.splits sum.splits)
       (metis prod.collapse)
  then show ?thesis by (rule blox_rows_kept)
qed

lemma net_log_msg: "net (log_msg f l a w) = net w"
  by (simp add: log_msg_def)

lemma fetch_html_steady:
  assumes "steady w" and "net x = net w"
  shows "fst (fetch_html u x) = map_sum id html (net w 0 u)"
    and "net (snd (fetch_html u x)) = net w"
proof -
  from assms have "net x (length (requests x)) u = net w 0 u"
    by (simp add: steady_def)
  then show "fst (fetch_html u x) = map_sum id html (net w 0 u)"
    by (simp add: fetch_html_result)
  from assms(2) show "net (snd (fetch_html u x)) = net w"
    by (simp add: fetch_html_world)
qed

lemma date_checks_steady:
  assumes "steady w"
  shows "net x = net w \<Longrightarrow> list_all (dated_page w d) valid \<Longrightarrow>
     list_all (dated_page w d) (fst (date_checks d candidates valid x)) \<and>
     net (snd (date_checks d candidates valid x)) = net w"
proof (induction candidates arbitrary: valid x)
  case Nil
  then show ?case by simp
next
  case (Cons u candidates)
  show ?case
  proof (cases "length valid \<ge> MAX_ARTICLES")
    case True
    with Cons.prems show ?thesis by simp
  next
    case False
    let ?x0 = "log_msg ''mykeenenow'' INFO u x"
    obtain r x1 where f: "fetch_html u ?x0 = (r, x1)"
      by (cases "fetch_html u ?x0")
    have n0: "net ?x0 = net w" using Cons.prems(1) by (simp add: net_log_msg)
    from fetch_html_steady [OF assms n0, of u] f
    have r: "r = map_sum id html (net w 0 u)" and n1: "net x1 = net w"
      by simp_all
    have n2: "net (log_msg ''mykeenenow'' WARNING u x1) = net w"
      using n1 by (simp add: net_log_msg)
    show ?thesis
    proof (cases r)
      case (Inl e)
      with False f Cons.IH [OF n2 Cons.prems(2)] show ?thesis by simp
    next
      case (Inr page)
      show ?thesis
      proof (cases "text_date (page_text page)")
        case (Inl e)
        with Inr False f Cons.IH [OF n2 Cons.prems(2)] show ?thesis by simp
      next
        case found: (Inr found)
        show ?thesis
        proof (cases "found = Some d")
          case True
          from Inr r found True have "dated_page w d u"
            by (auto simp: dated_page_def split: sum.splits)
          with Cons.prems(2) have "list_all (dated_page w d) (valid @ [u])" by simp
          from Cons.IH [OF n1 this] Inr found True False f show ?thesis by simp
        next
          case neq: False
          from Cons.IH [OF n1 Cons.prems(2)] Inr found neq False f show ?thesis by simp
        qed
      qed
    qed
  qed
qed

lemma mykeenenow_scrape_article_steady:
  assumes "steady w" and "net x = net w" and "mykeenenow_scrape_article u d x = (r, x1)"
  shows "net x1 = net w" and "dated_page w d u \<Longrightarrow> r = Inr (Some art) \<Longrightarrow> a_date art = Some d"
proof -
  obtain r0 x0 where f: "fetch_html u x = (r0, x0)"
    by (cases "fetch_html u x")
  from fetch_html_steady [OF assms(1,2), of u] f
  have r0: "r0 = map_sum id html (net w 0 u)" and n0: "net x0 = net w"
    by simp_all
  from assms(3) f have "x1 = x0"
    by (auto simp: mykeenenow_scrape_article_def split: sum.splits)
  with n0 show "net x1 = net w" by simp
  assume "dated_page w d u" and "r = Inr (Some art)"
  with assms(3) f r0 show "a_date art = Some d"
    by (auto simp: mykeenenow_scrape_article_def dated_page_def split: sum.splits)
qed

lemma mykeenenow_scrape_dates:
  assumes "steady w" and "fst (mykeenenow_scrape lib d w) = Inr arts"
  shows "list_all (\<lambda>art. a_date art = Some d) arts"
proof -
  let ?w0 = "log_msg ''mykeenenow'' INFO (isoformat d) w"
  from assms(2) obtain urls w1 where
    u: "mykeenenow_get_urls_for_date lib d ?w0 = (Inr urls, w1)" and
    a: "arts = fst (scrape_loop ''mykeenenow'' mykeenenow_scrape_article (\<lambda>art. True) d urls
        (log_msg ''mykeenenow'' INFO (show_nat (length urls)) w1))"
    by (auto simp: mykeenenow_scrape_def split: prod.splits sum.splits)
  obtain r0 x0 where f: "fetch_html mykeenenow_NEWS_URL ?w0 = (r0, x0)"
    by (cases "fetch_html mykeenenow_NEWS_URL ?w0")
  have "net ?w0 = net w" by (simp add: net_log_msg)
  from fetch_html_steady(2) [OF assms(1) this, of mykeenenow_NEWS_URL] f
  have n0: "net x0 = net w" by simp
  from u f obtain candidates where
    dc: "date_checks d candidates [] x0 = (urls, w1)"
    by (auto simp: mykeenenow_get_urls_for_date_def split: prod.splits sum.splits)
  from date_checks_steady [OF assms(1) n0, of d "[]" candidates] dc
  have good: "list_all (dated_page w d) urls" and n1: "net w1 = net w"
    by simp_all
  show ?thesis
    unfolding a
  proof (rule scrape_loop_inv [where Inv = "\<lambda>x. net x = net w"])
    show "net (log_msg ''mykeenenow'' INFO (show_nat (length urls)) w1) = net w"
      using n1 by (simp add: net_log_msg)
  next
    fix u r and x x1 :: world
    assume uin: "u \<in> set urls" and nx: "net x = net w"
      and s: "mykeenenow_scrape_article u d (log_msg ''mykeenenow'' INFO u x) = (r, x1)"
    from nx have "net (log_msg ''mykeenenow'' INFO u x) = net w"
      by (simp add: net_log_msg)
    from mykeenenow_scrape_article_steady [OF assms(1) this s] good uin
    show "net (log_msg ''mykeenenow'' ERROR u x1) = net w \<and> net x1 = net w \<and>
        (\<forall>art. r = Inr (Some art) \<and> True \<longrightarrow> a_date art = Some d)"
      by (auto simp: net_log_msg list_all_iff)
  qed
qed

lemma news_links_length:
  "news_links lib hrefs candidates = Inr found \<Longrightarrow>
   length found \<le> length candidates + length hrefs"
proof (induction hrefs arbitrary: candidates)
  case Nil
  then show ?case by simp
next
  case (Cons a hrefs)
  show ?case
  proof (cases "a = []")
    case True
    with Cons.prems Cons.IH [of candidates] show ?thesis by simp
  next
    case False
    from Cons.prems False obtain href where
      h: "(if startswith a ''/'' then urljoin lib mykeenenow_BASE_URL a else Inr a) = Inr href"
      by (auto split: sum.splits)
    show ?thesis
      using Cons.prems Cons.IH [of candidates] Cons.IH [of "candidates @ [href]"] False h
      by (auto split: if_splits)
  qed
qed

lemma wmur_candidates_cap:
  "case fst (wmur_get_candidate_urls w) of Inr urls \<Rightarrow> length urls \<le> MAX_ARTICLES | Inl e \<Rightarrow> True"
  using wmur_collect_length [of "[]"]
  by (simp add: wmur_get_candidate_urls_def MAX_ARTICLES_def split: prod.split sum.split)

lemma wcax_urls_cap:
  "case fst (wcax_get_urls_for_date lib d w) of Inr urls \<Rightarrow> length urls \<le> MAX_ARTICLES
   | Inl e \<Rightarrow> True"
  using dated_links_length [of "[]" lib wcax_BASE_URL d]
  by (auto simp: wcax_get_urls_for_date_def MAX_ARTICLES_def split: prod.split sum.split)

lemma vtdigger_urls_cap:
  "case fst (vtdigger_get_urls_for_date lib d w) of Inr urls \<Rightarrow> length urls \<le> MAX_ARTICLES
   | Inl e \<Rightarrow> True"
  using dated_links_length [of "[]" lib vtdigger_BASE_URL d]
  by (auto simp: vtdigger_get_urls_for_date_def MAX_ARTICLES_def split: prod.split sum.split)

lemma mykeenenow_urls_cap:
  "case fst (mykeenenow_get_urls_for_date lib d w) of Inr urls \<Rightarrow> length urls \<le> MAX_ARTICLES
   | Inl e \<Rightarrow> True"
  using date_checks_length [of "[]" d]
  by (auto simp: mykeenenow_get_urls_for_date_def split: prod.split sum.split)
     (metis fst_conv)

lemma mykeenenow_scan_bound:
  "length (requests (snd (mykeenenow_get_urls_for_date lib d w))) \<le>
   length (requests w) + 1 +
   (case fst (fetch_html mykeenenow_NEWS_URL w) of Inr page \<Rightarrow> length (anchors page)
    | Inl e \<Rightarrow> 0)"
proof -
  obtain r w1 where f: "fetch_html mykeenenow_NEWS_URL w = (r, w1)"
    by (cases "fetch_html mykeenenow_NEWS_URL w")
  from fetch_html_world(1) [of mykeenenow_NEWS_URL w] f
  have len: "length (requests w1) = length (requests w) + 1" by simp
  show ?thesis
  proof (cases r)
    case (Inl e)
    with f len show ?thesis by (simp add: mykeenenow_get_urls_for_date_def)
  next
    case (Inr page)
    show ?thesis
    proof (cases "news_links lib (anchors page) []")
      case (Inl e)
      with Inr f len show ?thesis by (simp add: mykeenenow_get_urls_for_date_def)
    next
      case cand: (Inr candidates)
      from news_links_length [OF cand] have "length candidates \<le> length (anchors page)"
        by simp
      with date_checks_requests [of d candidates "[]" w1] len
      have "length (requests (snd (date_checks d candidates [] w1))) \<le>
          length (requests w) + 1 + length (anchors page)"
        by simp
      with Inr cand f show ?thesis
        by (auto simp: mykeenenow_get_urls_for_date_def split: prod.split)
    qed
  qed
qed

lemma blox_scrape_failure:
  assumes "request_fails w u"
  shows "blox_scrape lib site u base keys stops d w =
     (Inr [], w\<lparr>requests := requests w @ [u],
                log_lines := log_lines w @ [Log site INFO (isoformat d), Log site ERROR u]\<rparr>)"
  using assms
  by (auto simp: blox_scrape_def api_request_def http_get_def log_msg_def request_fails_def
      split: sum.splits option.splits)







lemma api_failure:
  "(request_fails w keenesentinel_request \<longrightarrow>
      keenesentinel_scrape lib d w =
        (Inr [], w\<lparr>requests := requests w @ [keenesentinel_request],
           log_lines := log_lines w @ [Log ''keenesentinel'' INFO (isoformat d),
             Log ''keenesentinel'' ERROR keenesentinel_request]\<rparr>)) \<and>
   (request_fails w reformer_request \<longrightarrow>
      reformer_scrape lib d w =
        (Inr [], w\<lparr>requests := requests w @ [reformer_request],
           log_lines := log_lines w @ [Log ''reformer'' INFO (isoformat d),
             Log ''reformer'' ERROR reformer_request]\<rparr>))"
  using blox_scrape_failure
  by (simp add: keenesentinel_scrape_def reformer_scrape_def)

lemma api_scrape_kept:
  "(case fst (keenesentinel_scrape lib d w) of
      Inr arts \<Rightarrow> list_all (\<lambda>art. a_date art = Some d \<and> a_paragraphs art \<noteq> []) arts
    | Inl e \<Rightarrow> True) \<and>
   (case fst (reformer_scrape lib d w) of
      Inr arts \<Rightarrow> list_all (\<lambda>art. a_date art = Some d \<and> a_paragraphs art \<noteq> []) arts
    | Inl e \<Rightarrow> True)"
  using blox_scrape_kept
  by (auto simp: keenesentinel_scrape_def reformer_scrape_def split: sum.split)


section \<open>The date of the articles an adapter returns\<close>

text \<open>
  Five adapters return only articles dated as asked, whatever the sites answer: wmur.py
  compares the date of each article it has scraped, wcax.py and vtdigger.py read the date
  from the URL both when they pick it and when they scrape it, and the two API adapters
  compare the date of each row. mykeenenow.py compares the date of a page it then fetches
  again; its articles are dated as asked when the second fetch shows what the first did.
\<close>

lemma scrape_dates:
  "(case fst (wmur_scrape d w) of Inr arts \<Rightarrow> list_all (\<lambda>art. a_date art = Some d) arts
    | Inl e \<Rightarrow> True) \<and>
   (case fst (wcax_scrape lib d w) of Inr arts \<Rightarrow> list_all (\<lambda>art. a_date art = Some d) arts
    | Inl e \<Rightarrow> True) \<and>
   (case fst (vtdigger_scrape lib d w) of Inr arts \<Rightarrow> list_all (\<lambda>art. a_date art = Some d) arts
    | Inl e \<Rightarrow> True) \<and>
   (case fst (keenesentinel_scrape lib d w) of
      Inr arts \<Rightarrow> list_all (\<lambda>art. a_date art = Some d) arts
    | Inl e \<Rightarrow> True) \<and>
   (case fst (reformer_scrape lib d w) of Inr arts \<Rightarrow> list_all (\<lambda>art. a_date art = Some d) arts
    | Inl e \<Rightarrow> True) \<and>
   (steady w \<longrightarrow>
    (case fst (mykeenenow_scrape lib d w) of
       Inr arts \<Rightarrow> list_all (\<lambda>art. a_date art = Some d) arts
     | Inl e \<Rightarrow> True))"
proof -
  have a: "list_all (\<lambda>art. a_date art = Some d) arts"
    if "list_all (\<lambda>art. a_date art = Some d \<and> a_paragraphs art \<noteq> []) arts" for arts
    using that by (simp add: list_all_iff)
  have 1: "case fst (wmur_scrape d w) of Inr arts \<Rightarrow> list_all (\<lambda>art. a_date art = Some d) arts
    | Inl e \<Rightarrow> True"
    by (simp add: wmur_scrape_dates split: sum.split)
  have 2: "case fst (wcax_scrape lib d w) of
      Inr arts \<Rightarrow> list_all (\<lambda>art. a_date art = Some d) arts | Inl e \<Rightarrow> True"
    by (simp add: wcax_scrape_dates split: sum.split)
  have 3: "case fst (vtdigger_scrape lib d w) of
      Inr arts \<Rightarrow> list_all (\<lambda>art. a_date art = Some d) arts | Inl e \<Rightarrow> True"
    by (simp add: vtdigger_scrape_dates split: sum.split)
  have 4: "case fst (keenesentinel_scrape lib d w) of
      Inr arts \<Rightarrow> list_all (\<lambda>art. a_date art = Some d) arts | Inl e \<Rightarrow> True"
    using api_scrape_kept [where lib = lib and d = d and w = w] a by (auto split: sum.splits)
  have 5: "case fst (reformer_scrape lib d w) of
      Inr arts \<Rightarrow> list_all (\<lambda>art. a_date art = Some d) arts | Inl e \<Rightarrow> True"
    using api_scrape_kept [where lib = lib and d = d and w = w] a by (auto split: sum.splits)
  have 6: "steady w \<longrightarrow>
    (case fst (mykeenenow_scrape lib d w) of
       Inr arts \<Rightarrow> list_all (\<lambda>art. a_date art = Some d) arts
     | Inl e \<Rightarrow> True)"
    by (simp add: mykeenenow_scrape_dates split: sum.split)
  from 1 2 3 4 5 6 show ?thesis
    by (intro conjI)
qed

text \<open>
  C1. Every article an adapter returns for the date \<open>d\<close> is dated \<open>d\<close>. MyKeeneNow breaks
  this when the page of an article changes between the fetch that checks its date and the
  fetch that scrapes it: asked for September 5, it keeps the URL of a page that shows
  September 5 at the check, fetches the page again, reads September 6 there, and returns
  the article dated September 6. (\<open>scrape\<close> of wmur.py compares the date after scraping;
  \<open>scrape\<close> of mykeenenow.py does not.)
\<close>

theorem mykeenenow_scrape_wrong_date:
  "fst (mykeenenow_scrape sample_lib (Date 2025 9 5) edited_site) =
     Inr [\<lparr>a_url = ''https://mykeenenow.com/news/road-closed/'', a_title = JStr ''Road closed'',
           a_date = Some (Date 2025 9 6), a_paragraphs = [''The road is open again.'']\<rparr>] \<and>
   requests (snd (mykeenenow_scrape sample_lib (Date 2025 9 5) edited_site)) =
     [''https://mykeenenow.com/news/'', ''https://mykeenenow.com/news/road-closed/'',
      ''https://mykeenenow.com/news/road-closed/'']"
  by code_simp


section \<open>Articles without paragraphs\<close>

text \<open>
  The two API adapters leave out a row whose body gives no paragraph
  (\<open>if not paragraphs: continue\<close>).
\<close>

lemma api_scrape_paragraphs:
  "(case fst (keenesentinel_scrape lib d w) of
      Inr arts \<Rightarrow> list_all (\<lambda>art. a_paragraphs art \<noteq> []) arts
    | Inl e \<Rightarrow> True) \<and>
   (case fst (reformer_scrape lib d w) of
      Inr arts \<Rightarrow> list_all (\<lambda>art. a_paragraphs art \<noteq> []) arts
    | Inl e \<Rightarrow> True)"
proof -
  have "list_all (\<lambda>art. a_paragraphs art \<noteq> []) arts"
    if "list_all (\<lambda>art. a_date art = Some d \<and> a_paragraphs art \<noteq> []) arts" for arts
    using that by (simp add: list_all_iff)
  then show ?thesis
    using api_scrape_kept [where lib = lib and d = d and w = w] by (auto split: sum.splits)
qed

text \<open>
  C2. No adapter returns an article without paragraphs. The four HTML adapters break this:
  none of them tests the list of paragraphs, and each returns the article of a page that
  has a headline and a date but no \<open>p\<close> element, with no paragraph.
\<close>

theorem html_scrape_keeps_bare_article:
  "fst (wmur_scrape (Date 2025 9 5) bare_site) =
     Inr [\<lparr>a_url = ''https://www.wmur.com/article/road-closed-12345'',
           a_title = JStr ''Road closed'', a_date = Some (Date 2025 9 5), a_paragraphs = []\<rparr>] \<and>
   fst (wcax_scrape sample_lib (Date 2025 9 5) bare_site) =
     Inr [\<lparr>a_url = ''https://www.wcax.com/2025/09/05/road-closed/'',
           a_title = JStr ''Road closed'', a_date = Some (Date 2025 9 5), a_paragraphs = []\<rparr>] \<and>
   fst (vtdigger_scrape sample_lib (Date 2025 9 5) bare_site) =
     Inr [\<lparr>a_url = ''https://vtdigger.org/2025/09/05/road-closed/'',
           a_title = JStr ''Road closed'', a_date = Some (Date 2025 9 5), a_paragraphs = []\<rparr>] \<and>
   fst (mykeenenow_scrape sample_lib (Date 2025 9 5) bare_site) =
     Inr [\<lparr>a_url = ''https://mykeenenow.com/news/road-closed/'',
           a_title = JStr ''Road closed'', a_date = Some (Date 2025 9 5), a_paragraphs = []\<rparr>]"
  by code_simp


section \<open>A site whose first request fails\<close>





section \<open>How many URLs are found, and how many pages are scanned\<close>

text \<open>
  C9. The URL discovery of each of the four HTML adapters returns at most 60 URLs. On the
  slow path of mykeenenow.py the cap is on the URLs that matched, not on the pages
  scanned: the scan ends once 60 pages have matched, and until then every candidate of
  the listing page is fetched, so the requests made are bounded by the number of links of
  the listing page only.
\<close>

theorem discovery_caps:
  "(case fst (wmur_get_candidate_urls w) of Inr urls \<Rightarrow> length urls \<le> MAX_ARTICLES
    | Inl e \<Rightarrow> True) \<and>
   (case fst (wcax_get_urls_for_date lib d w) of Inr urls \<Rightarrow> length urls \<le> MAX_ARTICLES
    | Inl e \<Rightarrow> True) \<and>
   (case fst (vtdigger_get_urls_for_date lib d w) of Inr urls \<Rightarrow> length urls \<le> MAX_ARTICLES
    | Inl e \<Rightarrow> True) \<and>
   (case fst (mykeenenow_get_urls_for_date lib d w) of Inr urls \<Rightarrow> length urls \<le> MAX_ARTICLES
    | Inl e \<Rightarrow> True) \<and>
   length (requests (snd (mykeenenow_get_urls_for_date lib d w))) \<le>
     length (requests w) + 1 +
     (case fst (fetch_html mykeenenow_NEWS_URL w) of Inr page \<Rightarrow> length (anchors page)
      | Inl e \<Rightarrow> 0)"
  by (intro conjI wmur_candidates_cap wcax_urls_cap vtdigger_urls_cap mykeenenow_urls_cap
      mykeenenow_scan_bound)

theorem discovery_caps_witness:
  "(case fst (wmur_get_candidate_urls bare_site) of Inr urls \<Rightarrow> length urls \<le> MAX_ARTICLES
    | Inl e \<Rightarrow> True) \<and>
   (case fst (wcax_get_urls_for_date sample_lib (Date 2025 9 5) bare_site) of
      Inr urls \<Rightarrow> length urls \<le> MAX_ARTICLES
    | Inl e \<Rightarrow> True) \<and>
   (case fst (vtdigger_get_urls_for_date sample_lib (Date 2025 9 5) bare_site) of
      Inr urls \<Rightarrow> length urls \<le> MAX_ARTICLES
    | Inl e \<Rightarrow> True) \<and>
   (case fst (mykeenenow_get_urls_for_date sample_lib (Date 2025 9 5) bare_site) of
      Inr urls \<Rightarrow> length urls \<le> MAX_ARTICLES
    | Inl e \<Rightarrow> True) \<and>
   length (requests (snd (mykeenenow_get_urls_for_date sample_lib (Date 2025 9 5) bare_site))) \<le>
     length (requests bare_site) + 1 +
     (case fst (fetch_html mykeenenow_NEWS_URL bare_site) of Inr page \<Rightarrow> length (anchors page)
      | Inl e \<Rightarrow> 0)"
  by (rule discovery_caps)

theorem mykeenenow_scans_every_candidate:
  "fst (mykeenenow_get_urls_for_date sample_lib (Date 2025 9 5) crowded_site) = Inr [] \<and>
   length (requests (snd (mykeenenow_get_urls_for_date sample_lib (Date 2025 9 5)
     crowded_site))) = 62"
  by code_simp


section \<open>The search API fails\<close>

text \<open>
  C10. When the request to the search API raises, or its answer is not JSON, \<open>scrape\<close> of
  keenesentinel.py and of reformer.py logs the error and returns the empty list. Only this
  request is inside the \<open>try\<close>: an answer that is JSON of another shape than the adapter
  expects can still make \<open>scrape\<close> raise.
\<close>

theorem api_failure_gives_no_articles:
  "(request_fails w keenesentinel_request \<longrightarrow>
      keenesentinel_scrape lib d w =
        (Inr [], w\<lparr>requests := requests w @ [keenesentinel_request],
           log_lines := log_lines w @ [Log ''keenesentinel'' INFO (isoformat d),
             Log ''keenesentinel'' ERROR keenesentinel_request]\<rparr>)) \<and>
   (request_fails w reformer_request \<longrightarrow>
      reformer_scrape lib d w =
        (Inr [], w\<lparr>requests := requests w @ [reformer_request],
           log_lines := log_lines w @ [Log ''reformer'' INFO (isoformat d),
             Log ''reformer'' ERROR reformer_request]\<rparr>))"
  by (rule api_failure)

theorem api_failure_gives_no_articles_witness:
  "request_fails offline keenesentinel_request \<and>
   fst (keenesentinel_scrape sample_lib (Date 2025 9 5) offline) = Inr [] \<and>
   request_fails offline reformer_request \<and>
   fst (reformer_scrape sample_lib (Date 2025 9 5) offline) = Inr []"
proof -
  have k: "request_fails offline keenesentinel_request"
    and r: "request_fails offline reformer_request"
    by (simp_all add: request_fails_def offline_def)
  from api_failure_gives_no_articles
    [where w = offline and lib = sample_lib and d = "Date 2025 9 5"] k r
  show ?thesis by simp
qed

theorem api_scrape_raises:
  "fst (keenesentinel_scrape sample_lib (Date 2025 9 5) array_api) = Inl AttributeError \<and>
   fst (reformer_scrape sample_lib (Date 2025 9 5) array_api) = Inl AttributeError \<and>
   fst (keenesentinel_scrape sample_lib (Date 2025 9 5) null_rows_api) = Inl TypeError \<and>
   fst (reformer_scrape sample_lib (Date 2025 9 5) null_rows_api) = Inl TypeError"
  by code_simp


section \<open>The layout of an article file\<close>

text \<open>
  C3. The file of an article is made of these lines, each ended by a newline: the title
  (\<open>Untitled\<close> for an empty one), a blank line, the Site line with the slug in upper case,
  the Published line when the article has a date, the URL line, and then, for each
  paragraph that is not blank, a blank line and the paragraph without its surrounding
  whitespace. No blank line follows the last paragraph; blank paragraphs are left out; and
  when no paragraph is kept, the URL line loses its trailing whitespace.
\<close>

theorem write_text_article_layout:
  assumes "a_title a = JStr t0"
  shows "write_text_article a site_slug =
     Inr (concat (map (\<lambda>l. l @ ''\<newline>'') (written_lines (shown_title t0) a site_slug)))"
  using assms by (rule written_text)

theorem write_text_article_layout_witness:
  "a_title town_article = JStr ''Town Meeting Update'' \<and>
   write_text_article town_article ''wmur'' =
     Inr (concat (map (\<lambda>l. l @ ''\<newline>'')
       (written_lines (shown_title ''Town Meeting Update'') town_article ''wmur'')))"
proof -
  have t: "a_title town_article = JStr ''Town Meeting Update''"
    by (simp add: town_article_def)
  from t write_text_article_layout [OF t] show ?thesis
    by (rule conjI)
qed

theorem write_text_article_not_claimed_text:
  "write_text_article town_article ''wmur'' =
     Inr ''Town Meeting Update\<newline>\<newline>Site: WMUR\<newline>Published: 2025-09-05\<newline>URL: https://example.com/town-meeting\<newline>\<newline>First paragraph.\<newline>\<newline>Second paragraph.\<newline>'' \<and>
   claimed_text ''Town Meeting Update'' town_article ''wmur'' =
     ''Town Meeting Update\<newline>\<newline>Site: WMUR\<newline>Published: 2025-09-05\<newline>URL: https://example.com/town-meeting\<newline>\<newline>First paragraph.\<newline>\<newline>   \<newline>\<newline>Second paragraph.\<newline>\<newline>'' \<and>
   write_text_article town_article ''wmur'' \<noteq>
     Inr (claimed_text ''Town Meeting Update'' town_article ''wmur'')"
  by code_simp


section \<open>Writing an article and reading it back\<close>

text \<open>
  C4. The reader finds the title, the URL and the ISO date of an article in the file the
  writer made of it, provided that the title is a non-empty string with no colon, no line
  boundary and no surrounding whitespace, the URL has no line boundary and no surrounding
  whitespace, the slug in upper case has no line boundary, and no line of a paragraph
  starts, after its leading whitespace and without regard to case, with \<open>published:\<close> or
  \<open>url:\<close>. An article without a date comes back without a published date.
\<close>

theorem write_then_parse_recovers:
  assumes "a_title a = JStr t" and "t \<noteq> []" and "trimmed t" and "CHR '':'' \<notin> set t"
    and "no_linebreak t" and "no_linebreak (upper site_slug)"
    and "no_linebreak (a_url a)" and "trimmed (a_url a)"
    and "\<forall>p \<in> set (a_paragraphs a). \<forall>l \<in> set (splitlines (strip p)). \<not> meta_line l"
  shows "\<exists>m. write_then_parse a site_slug = Inr m \<and> m_title m = Some t \<and>
     m_url m = Some (a_url a) \<and> m_published m = map_option isoformat (a_date a)"
  using assms by (rule reread)

theorem write_then_parse_recovers_witness:
  "\<exists>m. write_then_parse town_article ''wmur'' = Inr m \<and>
     m_title m = Some ''Town Meeting Update'' \<and>
     m_url m = Some (a_url town_article) \<and>
     m_published m = map_option isoformat (a_date town_article)"
proof (rule write_then_parse_recovers)
  show "a_title town_article = JStr ''Town Meeting Update''"
    by (simp add: town_article_def)
  show "''Town Meeting Update'' \<noteq> []" by simp
  show "trimmed ''Town Meeting Update''" by code_simp
  show "CHR '':'' \<notin> set ''Town Meeting Update''" by simp
  show "no_linebreak ''Town Meeting Update''" by code_simp
  show "no_linebreak (upper ''wmur'')" by code_simp
  show "no_linebreak (a_url town_article)" by code_simp
  show "trimmed (a_url town_article)" by code_simp
  show "\<forall>p \<in> set (a_paragraphs town_article). \<forall>l \<in> set (splitlines (strip p)). \<not> meta_line l"
    by code_simp
qed

theorem write_then_parse_colon_title:
  "a_title colon_article = JStr ''Town Meeting: Update'' \<and>
   write_then_parse colon_article ''wmur'' =
     Inr \<lparr>m_title = Some ''The board met on Tuesday.'',
          m_url = Some ''https://example.com/town-meeting-2'',
          m_published = Some ''2025-09-05'', m_site = Some ''WMUR''\<rparr>"
  by code_simp


section \<open>File names that collide\<close>





section \<open>The sanitizer's contract\<close>

text \<open>
  C6. For every title the sanitizer returns \<open>stem @ ".txt"\<close> where the stem is not empty, has
  at most 150 characters, holds none of the nine forbidden characters, has every whitespace
  run collapsed to one space and no leading or trailing whitespace; the stem is
  \<open>untitled\<close> when the title is empty or nothing of it is left after cleaning.
\<close>

theorem title_to_filename_safe:
  "\<exists>stem. title_to_filename t = stem @ ''.txt'' \<and> safe_stem stem \<and>
     (if t = [] \<or> strip (collapse_ws False (strip_illegal t)) = []
      then stem = ''untitled'' else True)"
  by (rule sanitized)

theorem title_to_filename_safe_witness:
  "\<exists>stem. title_to_filename ''  Budget: \"final\"   vote?  '' = stem @ ''.txt'' \<and> safe_stem stem \<and>
     (if ''  Budget: \"final\"   vote?  '' = [] \<or>
         strip (collapse_ws False (strip_illegal ''  Budget: \"final\"   vote?  '')) = []
      then stem = ''untitled'' else True)"
  by (rule title_to_filename_safe)


section \<open>The date parser's contract\<close>

text \<open>
  C7. For every month (1 to 12), every spelling of it (abbreviated, full, or \<open>Sept\<close>), every
  year from 1 to 9999 written with four digits and every day the month has in that year,
  the parser returns that calendar date for the text \<open>Month D, YYYY\<close>. For a text that
  matches neither accepted format (after the Sept normalisation) it returns \<open>None\<close>, and it
  raises for no text at all.
\<close>

theorem parse_us_date_string_correct:
  "(\<forall>m name d y.
      1 \<le> m \<and> m \<le> 12 \<and> name \<in> set (month_names m) \<and> 1 \<le> y \<and> y \<le> 9999 \<and> 1 \<le> d \<and>
      d \<le> days_in_month y m \<longrightarrow>
      parse_us_date_string (name @ '' '' @ show_nat d @ '', '' @ pad4 y) =
        Inr (Some (Date y m d))) \<and>
   (\<forall>s. \<not> accepted_format s \<longrightarrow> parse_us_date_string s = Inr None) \<and>
   (\<forall>s. \<exists>r. parse_us_date_string s = Inr r)"
  using parse_month parse_unaccepted parse_never_raises by blast

theorem parse_us_date_string_correct_witness:
  "parse_us_date_string ''Sept 5, 2025'' = Inr (Some (Date 2025 9 5)) \<and>
   parse_us_date_string ''5 September 2025'' = Inr None"
proof -
  have n: "''Sept'' \<in> set (month_names 9)"
    by (simp add: month_names_def)
  have d: "(5::nat) \<le> days_in_month 2025 9"
    by (simp add: days_in_month_def)
  have t: "''Sept'' @ '' '' @ show_nat 5 @ '', '' @ pad4 2025 = ''Sept 5, 2025''"
    by (simp add: show_nat.simps pad4_def digit_of_def digit_chars_def)
  have u: "\<not> accepted_format ''5 September 2025''"
    by code_simp
  have prem: "1 \<le> (9::nat) \<and> (9::nat) \<le> 12 \<and> ''Sept'' \<in> set (month_names 9) \<and> 1 \<le> (2025::nat) \<and>
      (2025::nat) \<le> 9999 \<and> 1 \<le> (5::nat) \<and> (5::nat) \<le> days_in_month 2025 9"
    using n d by simp
  have inst: "1 \<le> (9::nat) \<and> (9::nat) \<le> 12 \<and> ''Sept'' \<in> set (month_names 9) \<and> 1 \<le> (2025::nat) \<and>
      (2025::nat) \<le> 9999 \<and> 1 \<le> (5::nat) \<and> (5::nat) \<le> days_in_month 2025 9 \<longrightarrow>
      parse_us_date_string (''Sept'' @ '' '' @ show_nat 5 @ '', '' @ pad4 2025) =
        Inr (Some (Date 2025 9 5))"
    using parse_us_date_string_correct by blast
  from inst prem
  have "parse_us_date_string (''Sept'' @ '' '' @ show_nat 5 @ '', '' @ pad4 2025) =
      Inr (Some (Date 2025 9 5))"
    by (rule mp)
  moreover from parse_us_date_string_correct u
  have "parse_us_date_string ''5 September 2025'' = Inr None"
    by blast
  ultimately show ?thesis
    by (simp only: t)
qed


end
